theory Spec2Isabelle
  imports Complex_Main
begin

section \<open>Data model (types.ts)\<close>

text \<open>
  The TypeScript interfaces of \<^verbatim>\<open>types.ts\<close> as records. Coordinates, probabilities,
  timestamps, and the allocation and frequency of a route entry are JavaScript numbers and
  are modelled as reals (exact arithmetic, no rounding); route ids and head counts are
  modelled as integers, the segment index of a vehicle (which starts at 0 and is only
  incremented) as a natural number. The fields
  \<^verbatim>\<open>x\<close> and \<^verbatim>\<open>y\<close> carry a prefix, \<^verbatim>\<open>from\<close>/\<^verbatim>\<open>to\<close> are spelled \<open>edge_from\<close>/\<open>edge_to\<close>
  and the fields of a route are prefixed with \<open>route_\<close> (\<^verbatim>\<open>id\<close> is \<open>route_ident\<close>, \<^verbatim>\<open>name\<close> is
  \<open>route_title\<close>), because the short names are needed for variables, Isar keywords and the
  fields of a vehicle.
\<close>

record Point =
  px :: real
  py :: real

datatype NodeType = terminal | stop | hub

record Node =
  node_id :: string
  node_label :: string
  node_x :: real
  node_y :: real
  node_type :: "NodeType option"

record Edge =
  edge_from :: string
  edge_to :: string
  controlPointOffset :: Point

record Route =
  route_ident :: int
  route_title :: string
  route_path :: "string list"
  route_color :: string

record RouteAnalytics =
  route_id :: int
  route_name :: string
  total_people :: int
  probability :: real
  buses_allocated :: real
  frequency_minutes :: real

datatype BusStatus = MOVING | WAITING | WAITING_FINAL | FINISHED

record SimulatedBus =
  bus_id :: string
  routeId :: int
  color :: string
  path :: "string list"
  currentSegment :: nat
  state :: BusStatus
  lastStateChangeTime :: real
  bus_x :: real
  bus_y :: real
  rotation :: real

record RouteStats =
  active :: nat
  completed :: nat

section \<open>Geometry (utils/geometry.ts)\<close>

definition getQuadraticBezierPoint :: "real \<Rightarrow> Point \<Rightarrow> Point \<Rightarrow> Point \<Rightarrow> Point" where
  "getQuadraticBezierPoint t p0 p1 p2 =
     (let oneMinusT = 1 - t;
          x = oneMinusT * oneMinusT * px p0 + 2 * oneMinusT * t * px p1 + t * t * px p2;
          y = oneMinusT * oneMinusT * py p0 + 2 * oneMinusT * t * py p1 + t * t * py p2
      in \<lparr>px = x, py = y\<rparr>)"

text \<open>
  \<^verbatim>\<open>Math.atan2\<close> on reals, by quadrant (signed zeros do not exist in the model; the
  origin is mapped to 0 as in JavaScript).
\<close>

definition atan2 :: "real \<Rightarrow> real \<Rightarrow> real" where
  "atan2 dy dx =
     (if 0 < dx then arctan (dy / dx)
      else if dx < 0 \<and> 0 \<le> dy then arctan (dy / dx) + pi
      else if dx < 0 then arctan (dy / dx) - pi
      else if 0 < dy then pi / 2
      else if dy < 0 then - (pi / 2)
      else 0)"

definition getQuadraticBezierAngle :: "real \<Rightarrow> Point \<Rightarrow> Point \<Rightarrow> Point \<Rightarrow> real" where
  "getQuadraticBezierAngle t p0 p1 p2 =
     (let dx = 2 * (1 - t) * (px p1 - px p0) + 2 * t * (px p2 - px p1);
          dy = 2 * (1 - t) * (py p1 - py p0) + 2 * t * (py p2 - py p1)
      in (atan2 dy dx * 180) / pi)"

definition calculateControlPoint :: "Point \<Rightarrow> Point \<Rightarrow> Point \<Rightarrow> Point" where
  "calculateControlPoint start end' offset =
     (let midX = (px start + px end') / 2;
          midY = (py start + py end') / 2
      in \<lparr>px = midX + px offset, py = midY + py offset\<rparr>)"

text \<open>
  The quadratic B\'ezier curve as the specification writes it,
  \<open>B(t) = (1-t)\<^sup>2 p0 + 2(1-t)t p1 + t\<^sup>2 p2\<close>, with the scalar multiples and the sum taken
  componentwise on points.
\<close>

definition scale_point :: "real \<Rightarrow> Point \<Rightarrow> Point" where
  "scale_point c p = \<lparr>px = c * px p, py = c * py p\<rparr>"

definition add_point :: "Point \<Rightarrow> Point \<Rightarrow> Point" where
  "add_point p q = \<lparr>px = px p + px q, py = py p + py q\<rparr>"

definition bezier_spec :: "real \<Rightarrow> Point \<Rightarrow> Point \<Rightarrow> Point \<Rightarrow> Point" where
  "bezier_spec t p0 p1 p2 =
     add_point (add_point (scale_point ((1 - t)\<^sup>2) p0) (scale_point (2 * (1 - t) * t) p1))
               (scale_point (t\<^sup>2) p2)"

section \<open>The network (constants.ts)\<close>

definition mkNode :: "string \<Rightarrow> real \<Rightarrow> real \<Rightarrow> NodeType \<Rightarrow> Node" where
  "mkNode i nx ny ty =
     \<lparr>node_id = i, node_label = i, node_x = nx, node_y = ny, node_type = Some ty\<rparr>"

definition mkEdge :: "string \<Rightarrow> string \<Rightarrow> real \<Rightarrow> real \<Rightarrow> Edge" where
  "mkEdge a b ox oy = \<lparr>edge_from = a, edge_to = b, controlPointOffset = \<lparr>px = ox, py = oy\<rparr>\<rparr>"

definition NODES :: "string \<rightharpoonup> Node" where
  "NODES = map_of
    [(''B1'', mkNode ''B1'' 100 350 terminal),
     (''B2'', mkNode ''B2'' 250 350 stop),
     (''B3'', mkNode ''B3'' 400 350 hub),
     (''B4'', mkNode ''B4'' 550 200 stop),
     (''B5'', mkNode ''B5'' 750 200 terminal),
     (''B6'', mkNode ''B6'' 550 500 hub),
     (''B7'', mkNode ''B7'' 750 350 terminal),
     (''B8'', mkNode ''B8'' 750 500 stop),
     (''B10'', mkNode ''B10'' 750 650 terminal),
     (''B9'', mkNode ''B9'' 900 500 terminal)]"

definition EDGES :: "Edge list" where
  "EDGES =
    [mkEdge ''B1'' ''B2'' 0 (-20),
     mkEdge ''B2'' ''B3'' 0 20,
     mkEdge ''B3'' ''B4'' (-20) 50,
     mkEdge ''B3'' ''B6'' (-20) (-50),
     mkEdge ''B4'' ''B5'' 0 (-30),
     mkEdge ''B6'' ''B7'' (-50) 50,
     mkEdge ''B6'' ''B8'' 0 20,
     mkEdge ''B6'' ''B10'' (-50) (-50),
     mkEdge ''B8'' ''B9'' 0 (-20)]"

definition ROUTES :: "Route list" where
  "ROUTES =
    [\<lparr>route_ident = 2, route_title = ''Route 2: Central Link'',
      route_path = [''B1'', ''B2'', ''B3'', ''B6'', ''B7''], route_color = ''#3b82f6''\<rparr>,
     \<lparr>route_ident = 1, route_title = ''Route 1: Northern Express'',
      route_path = [''B1'', ''B2'', ''B3'', ''B4'', ''B5''], route_color = ''#10b981''\<rparr>,
     \<lparr>route_ident = 3, route_title = ''Route 3: Long Haul South'',
      route_path = [''B1'', ''B2'', ''B3'', ''B6'', ''B8'', ''B9''], route_color = ''#f59e0b''\<rparr>,
     \<lparr>route_ident = 4, route_title = ''Route 4: Southern Edge'',
      route_path = [''B1'', ''B2'', ''B3'', ''B6'', ''B10''], route_color = ''#8b5cf6''\<rparr>]"

section \<open>Graph search (utils/graph.ts)\<close>

text \<open>
  A queue entry \<^verbatim>\<open>{id, path}\<close> is a pair. The \<^verbatim>\<open>for\<close> loop over the neighbours of the
  current stop is \<open>visitNeighbors\<close>: it threads the visited set and the queue. The
  \<^verbatim>\<open>while\<close> loop is \<open>bfsLoop\<close>, defined as a partial function: \<open>None\<close> stands for a loop
  that never returns, \<open>Some None\<close> for the result \<^verbatim>\<open>null\<close> and \<open>Some (Some p)\<close> for a path.
  As in the source, the start stop is put in the queue without being marked visited.
\<close>

type_synonym QueueItem = "string \<times> string list"

fun visitNeighbors ::
  "string list \<Rightarrow> string list \<Rightarrow> string set \<Rightarrow> QueueItem list \<Rightarrow> string set \<times> QueueItem list" where
  "visitNeighbors cpath [] visited queue = (visited, queue)"
| "visitNeighbors cpath (neighbor # ns) visited queue =
     (if neighbor \<notin> visited
      then visitNeighbors cpath ns (insert neighbor visited)
             (queue @ [(neighbor, cpath @ [neighbor])])
      else visitNeighbors cpath ns visited queue)"

definition neighborsOf :: "Edge list \<Rightarrow> string \<Rightarrow> string list" where
  "neighborsOf edges cid = map edge_to (filter (\<lambda>e. edge_from e = cid) edges)"

partial_function (option) bfsLoop ::
  "string \<Rightarrow> Edge list \<Rightarrow> QueueItem list \<Rightarrow> string set \<Rightarrow> string list option option" where
  "bfsLoop endId edges queue visited =
     (case queue of
        [] \<Rightarrow> Some None
      | current # rest \<Rightarrow>
          if fst current = endId then Some (Some (snd current))
          else (case visitNeighbors (snd current) (neighborsOf edges (fst current)) visited rest of
                  (visited', queue') \<Rightarrow> bfsLoop endId edges queue' visited'))"

definition findPath :: "string \<Rightarrow> string \<Rightarrow> Edge list \<Rightarrow> string list option option" where
  "findPath startId endId edges =
     (if startId = endId then Some (Some [startId])
      else bfsLoop endId edges [(startId, [startId])] {})"

subsection \<open>Directed paths\<close>

text \<open>
  A directed path from \<open>s\<close> to \<open>t\<close> is a non-empty list of stops that starts with \<open>s\<close>, ends
  with \<open>t\<close> and follows an edge of the list at every step; it has \<open>length p - 1\<close> edges.
  \<open>reach es s n w\<close> says that \<open>w\<close> is reached from \<open>s\<close> along \<open>n\<close> edges.
\<close>

fun is_walk :: "Edge list \<Rightarrow> string list \<Rightarrow> bool" where
  "is_walk es [] = False"
| "is_walk es [v] = True"
| "is_walk es (u # v # rest) =
     ((\<exists>e \<in> set es. edge_from e = u \<and> edge_to e = v) \<and> is_walk es (v # rest))"

definition directed_path :: "Edge list \<Rightarrow> string \<Rightarrow> string \<Rightarrow> string list \<Rightarrow> bool" where
  "directed_path es s t p \<longleftrightarrow> p \<noteq> [] \<and> hd p = s \<and> last p = t \<and> is_walk es p"

inductive reach :: "Edge list \<Rightarrow> string \<Rightarrow> nat \<Rightarrow> string \<Rightarrow> bool" for es s where
  reach_0: "reach es s 0 s"
| reach_Suc: "reach es s n v \<Longrightarrow> e \<in> set es \<Longrightarrow> edge_from e = v \<Longrightarrow> edge_to e = w
              \<Longrightarrow> reach es s (Suc n) w"

subsection \<open>The invariant of the search loop\<close>

text \<open>
  A stop is settled when it is not the destination and all its successors are known
  (visited, or the start). The loop keeps: every queue entry carries a directed path to
  its stop, and the stop is known; every known stop is settled or waits in the queue; the
  path lengths in the queue are sorted and differ by at most one; and the path of a queue
  entry is a shortest one, unless its stop is settled already (the case of the start stop
  when it is found again through an incoming edge).
\<close>

definition settled :: "Edge list \<Rightarrow> string \<Rightarrow> string set \<Rightarrow> string \<Rightarrow> bool" where
  "settled es endId known w \<longleftrightarrow>
     w \<noteq> endId \<and> (\<forall>e \<in> set es. edge_from e = w \<longrightarrow> edge_to e \<in> known)"

definition bfs_inv :: "string \<Rightarrow> string \<Rightarrow> Edge list \<Rightarrow> QueueItem list \<Rightarrow> string set \<Rightarrow> bool" where
  "bfs_inv s endId es queue visited \<longleftrightarrow>
     (\<forall>(w, p) \<in> set queue. directed_path es s w p \<and> w \<in> insert s visited)
   \<and> (\<forall>w \<in> insert s visited. settled es endId (insert s visited) w \<or> w \<in> fst ` set queue)
   \<and> sorted (map (\<lambda>it. length (snd it)) queue)
   \<and> (\<forall>(w, p) \<in> set queue. length p \<le> length (snd (hd queue)) + 1)
   \<and> (\<forall>(w, p) \<in> set queue. settled es endId (insert s visited) w
                             \<or> (\<forall>n. reach es s n w \<longrightarrow> length p \<le> n + 1))"

text \<open>A small graph with a two-cycle and a self-loop at the start stop.\<close>

definition cyclic_edges :: "Edge list" where
  "cyclic_edges = [mkEdge ''A'' ''B'' 0 0, mkEdge ''B'' ''A'' 0 0, mkEdge ''A'' ''A'' 0 0]"

section \<open>Dispatch scheduler (generateDispatchSchedule)\<close>












subsection \<open>Counting spawns\<close>


definition usableWindows :: "RouteAnalytics \<Rightarrow> real \<Rightarrow> nat" where
  "usableWindows route totalCycles =
     nat \<lceil>min (buses_allocated route) (of_int \<lfloor>totalCycles / frequency_minutes route\<rfloor>)\<rceil>"




definition routeBound :: "real \<Rightarrow> RouteAnalytics \<Rightarrow> nat" where
  "routeBound tc route =
     (if frequency_minutes route = 0 \<or> tc < frequency_minutes route then 0
      else usableWindows route tc)"




section \<open>Fleet animation (BusMap: spawner and handleMultiBusAnimation)\<close>

definition STOP_DURATION :: real where "STOP_DURATION = 1000"
definition DESTINATION_WAIT :: real where "DESTINATION_WAIT = 2000"
definition TRAVEL_DURATION :: real where "TRAVEL_DURATION = 2000"

text \<open>
  Reading a property of \<^verbatim>\<open>undefined\<close> (a stop id that \<^verbatim>\<open>NODES\<close> does not hold) throws a
  \<^verbatim>\<open>TypeError\<close>; it is the only exception of this code. The network (\<^verbatim>\<open>NODES\<close>,
  \<^verbatim>\<open>EDGES\<close>, \<^verbatim>\<open>ROUTES\<close>) is a parameter of every function below.
\<close>

datatype JsError = TypeError

text \<open>The remainder \<^verbatim>\<open>%\<close> of JavaScript on integers takes the sign of the dividend.\<close>

definition jsRem :: "int \<Rightarrow> int \<Rightarrow> int" where
  "jsRem a b = sgn a * (\<bar>a\<bar> mod \<bar>b\<bar>)"

definition laneWidth :: real where "laneWidth = 14"

definition node_point :: "Node \<Rightarrow> Point" where
  "node_point n = \<lparr>px = node_x n, py = node_y n\<rparr>"

subsection \<open>The spawner\<close>

text \<open>
  The object literal of a new bus, and the spawner's loop over the route ids scheduled for
  the current second. \<open>now\<close> is \<^verbatim>\<open>performance.now()\<close>; the fresh id string of each bus
  comes with its route id.
\<close>

definition newBus :: "string \<Rightarrow> int \<Rightarrow> Route \<Rightarrow> real \<Rightarrow> Node \<Rightarrow> SimulatedBus" where
  "newBus ident rid staticRoute now startNode =
     \<lparr>bus_id = ident, routeId = rid, color = route_color staticRoute,
      path = route_path staticRoute, currentSegment = 0, state = MOVING,
      lastStateChangeTime = now, bus_x = node_x startNode, bus_y = node_y startNode,
      rotation = 0\<rparr>"

fun spawnBuses ::
  "(string \<rightharpoonup> Node) \<Rightarrow> Route list \<Rightarrow> real \<Rightarrow> (string \<times> int) list
   \<Rightarrow> JsError + SimulatedBus list" where
  "spawnBuses nodes routes now [] = Inr []"
| "spawnBuses nodes routes now ((ident, rid) # rest) =
     (case find (\<lambda>r. route_ident r = rid) routes of
        None \<Rightarrow> spawnBuses nodes routes now rest
      | Some staticRoute \<Rightarrow>
          if length (route_path staticRoute) > 0
          then (case nodes (route_path staticRoute ! 0) of
                  None \<Rightarrow> Inl TypeError
                | Some startNode \<Rightarrow>
                    (case spawnBuses nodes routes now rest of
                       Inl e \<Rightarrow> Inl e
                     | Inr newBuses \<Rightarrow>
                         Inr (newBus ident rid staticRoute now startNode # newBuses)))
          else spawnBuses nodes routes now rest)"

subsection \<open>One animation frame\<close>

text \<open>
  \<open>moveBus\<close> is the part of the \<^verbatim>\<open>forEach\<close> callback after the edge and both stops have
  been found: curve position, lane offset, and the arrival test. The lane width (14 in the
  source, \<open>laneWidth\<close>) is a parameter \<open>lw\<close>, so that the run without lane offset is the
  instance \<open>lw = 0\<close>.
\<close>

definition moveBus :: "real \<Rightarrow> real \<Rightarrow> SimulatedBus \<Rightarrow> Node \<Rightarrow> Node \<Rightarrow> Edge \<Rightarrow> SimulatedBus" where
  "moveBus lw time bus fromNode toNode edge =
     (let cp = calculateControlPoint (node_point fromNode) (node_point toNode)
                 (controlPointOffset edge);
          elapsed = time - lastStateChangeTime bus;
          t = min (elapsed / TRAVEL_DURATION) 1;
          pos = getQuadraticBezierPoint t (node_point fromNode) cp (node_point toNode);
          rot = getQuadraticBezierAngle t (node_point fromNode) cp (node_point toNode);
          angleRad = (rot * pi) / 180;
          normalRad = angleRad + pi / 2;
          laneIndex = jsRem (routeId bus - 1) 4;
          laneOffset = (real_of_int laneIndex - 3 / 2) * lw;
          offsetX = laneOffset * cos normalRad;
          offsetY = laneOffset * sin normalRad;
          bus1 = bus\<lparr>bus_x := px pos + offsetX, bus_y := py pos + offsetY, rotation := rot\<rparr>
      in if t \<ge> 1
         then (let isFinal = (int (currentSegment bus) + 1 = int (length (path bus)) - 1)
               in bus1\<lparr>state := (if isFinal then WAITING_FINAL else WAITING),
                       lastStateChangeTime := time,
                       bus_x := node_x toNode + offsetX,
                       bus_y := node_y toNode + offsetY\<rparr>)
         else bus1)"

text \<open>
  The callback of \<^verbatim>\<open>ongoingBuses.forEach\<close>. It returns the bus after the in-place updates
  and the route ids it pushed to \<^verbatim>\<open>busesFinishedThisFrame\<close>.
\<close>

definition stepBus ::
  "real \<Rightarrow> (string \<rightharpoonup> Node) \<Rightarrow> Edge list \<Rightarrow> real \<Rightarrow> SimulatedBus
   \<Rightarrow> JsError + (SimulatedBus \<times> int list)" where
  "stepBus lw nodes edges time bus =
     (if state bus = WAITING \<or> state bus = WAITING_FINAL then
        (let elapsedWait = time - lastStateChangeTime bus;
             duration = (if state bus = WAITING_FINAL then DESTINATION_WAIT else STOP_DURATION)
         in if elapsedWait > duration
            then (if state bus = WAITING_FINAL
                  then Inr (bus\<lparr>state := FINISHED\<rparr>, [routeId bus])
                  else Inr (bus\<lparr>state := MOVING,
                                currentSegment := currentSegment bus + 1,
                                lastStateChangeTime := time\<rparr>, []))
            else Inr (bus, []))
      else
        (let segmentIndex = currentSegment bus
         in if int segmentIndex \<ge> int (length (path bus)) - 1
            then Inr (bus\<lparr>state := FINISHED\<rparr>, [routeId bus])
            else
              (let fromId = path bus ! segmentIndex;
                   toId = path bus ! (segmentIndex + 1)
               in case find (\<lambda>e. edge_from e = fromId \<and> edge_to e = toId) edges of
                    None \<Rightarrow> Inr (bus\<lparr>state := FINISHED\<rparr>, [routeId bus])
                  | Some edge \<Rightarrow>
                      (case nodes fromId of
                         None \<Rightarrow> Inl TypeError
                       | Some fromNode \<Rightarrow>
                           (case nodes toId of
                              None \<Rightarrow> Inl TypeError
                            | Some toNode \<Rightarrow>
                                Inr (moveBus lw time bus fromNode toNode edge, []))))))"

fun stepFleet ::
  "real \<Rightarrow> (string \<rightharpoonup> Node) \<Rightarrow> Edge list \<Rightarrow> real \<Rightarrow> SimulatedBus list
   \<Rightarrow> JsError + (SimulatedBus list \<times> int list)" where
  "stepFleet lw nodes edges time [] = Inr ([], [])"
| "stepFleet lw nodes edges time (bus # rest) =
     (case stepBus lw nodes edges time bus of
        Inl e \<Rightarrow> Inl e
      | Inr (bus', pushed) \<Rightarrow>
          (case stepFleet lw nodes edges time rest of
             Inl e \<Rightarrow> Inl e
           | Inr (rest', pushed') \<Rightarrow> Inr (bus' # rest', pushed @ pushed')))"

text \<open>
  The two counters \<^verbatim>\<open>(m[k] || 0) + 1\<close>, on a record from route id to count.
\<close>

definition countOf :: "(int \<rightharpoonup> nat) \<Rightarrow> int \<Rightarrow> nat" where
  "countOf m k = (case m k of None \<Rightarrow> 0 | Some c \<Rightarrow> c)"

definition bumpCount :: "int \<Rightarrow> (int \<rightharpoonup> nat) \<Rightarrow> (int \<rightharpoonup> nat)" where
  "bumpCount k m = m(k \<mapsto> countOf m k + 1)"

record SimState =
  busesRef :: "SimulatedBus list"
  completedCountsRef :: "int \<rightharpoonup> nat"

type_synonym Telemetry = "int \<rightharpoonup> RouteStats"

definition handleMultiBusAnimation ::
  "real \<Rightarrow> (string \<rightharpoonup> Node) \<Rightarrow> Edge list \<Rightarrow> RouteAnalytics list \<Rightarrow> real \<Rightarrow> SimState
   \<Rightarrow> JsError + (SimState \<times> Telemetry)" where
  "handleMultiBusAnimation lw nodes edges routesAnalytics time st =
     (let activeFleet = busesRef st;
          ongoingBuses = filter (\<lambda>bus. state bus \<noteq> FINISHED) activeFleet
      in case stepFleet lw nodes edges time ongoingBuses of
           Inl e \<Rightarrow> Inl e
         | Inr (stepped, busesFinishedThisFrame) \<Rightarrow>
             (let completedCounts = fold bumpCount busesFinishedThisFrame (completedCountsRef st);
                  remainingBuses = filter (\<lambda>b. state b \<noteq> FINISHED) stepped;
                  activeCounts = fold (\<lambda>b. bumpCount (routeId b)) remainingBuses Map.empty;
                  stats = fold (\<lambda>r s. s(route_id r \<mapsto>
                                  \<lparr>active = countOf activeCounts (route_id r),
                                   completed = countOf completedCounts (route_id r)\<rparr>))
                            routesAnalytics Map.empty
              in Inr (\<lparr>busesRef = remainingBuses, completedCountsRef = completedCounts\<rparr>,
                      stats)))"

subsection \<open>A simulation run\<close>

text \<open>
  A run is a sequence of events: an animation frame with its timestamp (\<^verbatim>\<open>animate\<close> calls
  \<^verbatim>\<open>handleMultiBusAnimation\<close> only when the fleet is not empty), or the spawner firing
  for a list of route ids. The run collects the telemetry sent to the parent.
\<close>

datatype Event = Frame real | Spawn real "(string \<times> int) list"

fun runEvents ::
  "real \<Rightarrow> (string \<rightharpoonup> Node) \<Rightarrow> Edge list \<Rightarrow> Route list \<Rightarrow> RouteAnalytics list \<Rightarrow> Event list
   \<Rightarrow> SimState \<times> Telemetry list \<Rightarrow> JsError + (SimState \<times> Telemetry list)" where
  "runEvents lw nodes edges routes ra [] s = Inr s"
| "runEvents lw nodes edges routes ra (Frame time # evs) (st, sent) =
     (if busesRef st = [] then runEvents lw nodes edges routes ra evs (st, sent)
      else (case handleMultiBusAnimation lw nodes edges ra time st of
              Inl e \<Rightarrow> Inl e
            | Inr (st', stats) \<Rightarrow> runEvents lw nodes edges routes ra evs (st', sent @ [stats])))"
| "runEvents lw nodes edges routes ra (Spawn now requests # evs) (st, sent) =
     (case spawnBuses nodes routes now requests of
        Inl e \<Rightarrow> Inl e
      | Inr newBuses \<Rightarrow>
          runEvents lw nodes edges routes ra evs
            (st\<lparr>busesRef := busesRef st @ newBuses\<rparr>, sent))"

definition initialState :: SimState where
  "initialState = \<lparr>busesRef = [], completedCountsRef = Map.empty\<rparr>"

subsection \<open>Views, counts and invariants of the fleet\<close>

text \<open>
  The view of a vehicle without its rendered position, and of a state whose vehicles are
  viewed so.
\<close>

definition logicalView :: "SimulatedBus \<Rightarrow> SimulatedBus" where
  "logicalView b = b\<lparr>bus_x := 0, bus_y := 0\<rparr>"

definition stateView :: "SimState \<Rightarrow> SimState" where
  "stateView st = st\<lparr>busesRef := map logicalView (busesRef st)\<rparr>"

text \<open>
  The active vehicles of a route (those not FINISHED), the vehicles a run spawns for a
  route, and the vehicle after one callback (the vehicle itself when the callback throws).
\<close>

definition activeCount :: "int \<Rightarrow> SimulatedBus list \<Rightarrow> nat" where
  "activeCount rid buses = length (filter (\<lambda>b. routeId b = rid \<and> state b \<noteq> FINISHED) buses)"

fun spawnedCount :: "(string \<rightharpoonup> Node) \<Rightarrow> Route list \<Rightarrow> int \<Rightarrow> Event list \<Rightarrow> nat" where
  "spawnedCount nodes routes rid [] = 0"
| "spawnedCount nodes routes rid (Frame time # evs) = spawnedCount nodes routes rid evs"
| "spawnedCount nodes routes rid (Spawn now requests # evs) =
     (case spawnBuses nodes routes now requests of
        Inl e \<Rightarrow> 0
      | Inr newBuses \<Rightarrow> length (filter (\<lambda>b. routeId b = rid) newBuses))
     + spawnedCount nodes routes rid evs"

definition steppedBus ::
  "real \<Rightarrow> (string \<rightharpoonup> Node) \<Rightarrow> Edge list \<Rightarrow> real \<Rightarrow> SimulatedBus \<Rightarrow> SimulatedBus" where
  "steppedBus lw nodes edges time b =
     (case stepBus lw nodes edges time b of Inl e \<Rightarrow> b | Inr (b', pushed) \<Rightarrow> b')"

text \<open>
  The segment invariant: a MOVING vehicle has a next stop, a WAITING vehicle has a stop
  after the next, and a vehicle in WAITING_FINAL stands before the last stop of its path.
\<close>

definition segmentOk :: "SimulatedBus \<Rightarrow> bool" where
  "segmentOk b \<longleftrightarrow>
     (state b = MOVING \<longrightarrow> int (currentSegment b) < int (length (path b)) - 1)
   \<and> (state b = WAITING \<longrightarrow> int (currentSegment b) + 1 < int (length (path b)) - 1)
   \<and> (state b = WAITING_FINAL \<longrightarrow> int (currentSegment b) + 1 = int (length (path b)) - 1)"

text \<open>
  A path is served by the network when every stop on it is a node and every two
  consecutive stops are joined by an edge.
\<close>

definition servedRoute :: "(string \<rightharpoonup> Node) \<Rightarrow> Edge list \<Rightarrow> string list \<Rightarrow> bool" where
  "servedRoute nodes edges pth \<longleftrightarrow>
     list_all (\<lambda>s. nodes s \<noteq> None) pth
   \<and> list_all (\<lambda>(x, y). find (\<lambda>e. edge_from e = x \<and> edge_to e = y) edges \<noteq> None)
        (zip pth (tl pth))"

subsection \<open>A single vehicle on a three-stop path\<close>

text \<open>
  The status shown by a fleet of one vehicle (FINISHED once it has been removed), its
  phase (0 to 4 along MOVING, WAITING, MOVING, WAITING_FINAL, FINISHED), and the list of
  statuses seen before and after each frame of a list of frame times.
\<close>

definition vehicleStatus :: "SimState \<Rightarrow> BusStatus" where
  "vehicleStatus st = (case busesRef st of [] \<Rightarrow> FINISHED | bus # rest \<Rightarrow> state bus)"

definition busPhase :: "SimulatedBus \<Rightarrow> nat" where
  "busPhase bus =
     (case state bus of
        MOVING \<Rightarrow> if currentSegment bus = 0 then 0 else 2
      | WAITING \<Rightarrow> 1
      | WAITING_FINAL \<Rightarrow> 3
      | FINISHED \<Rightarrow> 4)"

definition vehiclePhase :: "SimState \<Rightarrow> nat" where
  "vehiclePhase st = (case busesRef st of [] \<Rightarrow> 4 | bus # rest \<Rightarrow> busPhase bus)"

definition phases :: "BusStatus list" where
  "phases = [MOVING, WAITING, MOVING, WAITING_FINAL, FINISHED]"

fun vehicleTrace ::
  "real \<Rightarrow> (string \<rightharpoonup> Node) \<Rightarrow> Edge list \<Rightarrow> RouteAnalytics list \<Rightarrow> real list \<Rightarrow> SimState
   \<Rightarrow> BusStatus list" where
  "vehicleTrace lw nodes edges ra [] st = [vehicleStatus st]"
| "vehicleTrace lw nodes edges ra (time # later) st =
     vehicleStatus st #
     (case runEvents lw nodes edges [] ra [Frame time] (st, []) of
        Inl e \<Rightarrow> []
      | Inr (st', sent) \<Rightarrow> vehicleTrace lw nodes edges ra later st')"

text \<open>
  The timing invariant for a vehicle spawned at \<open>t0\<close> when no frame so far was later than
  \<open>T\<close>: each phase records how early its last state change can have happened. \<open>soloInv\<close> adds
  the completed counters: unchanged while the vehicle is in the fleet, bumped once for its
  route when it has left. \<open>servedABC\<close> says that both edges and the three stops exist.
\<close>

definition busOnTime :: "real \<Rightarrow> real \<Rightarrow> SimulatedBus \<Rightarrow> bool" where
  "busOnTime t0 T bus \<longleftrightarrow>
     (case state bus of
        MOVING \<Rightarrow>
          (currentSegment bus = 0 \<and> lastStateChangeTime bus = t0)
          \<or> (currentSegment bus = 1 \<and> t0 + 3000 < lastStateChangeTime bus
              \<and> lastStateChangeTime bus \<le> T)
      | WAITING \<Rightarrow>
          currentSegment bus = 0 \<and> t0 + 2000 \<le> lastStateChangeTime bus
          \<and> lastStateChangeTime bus \<le> T
      | WAITING_FINAL \<Rightarrow>
          currentSegment bus = 1 \<and> t0 + 5000 < lastStateChangeTime bus
          \<and> lastStateChangeTime bus \<le> T
      | FINISHED \<Rightarrow> False)"

definition soloInv ::
  "string list \<Rightarrow> int \<Rightarrow> (int \<rightharpoonup> nat) \<Rightarrow> real \<Rightarrow> real \<Rightarrow> SimState \<Rightarrow> bool" where
  "soloInv pth rid cc t0 T st \<longleftrightarrow>
     (case busesRef st of
        [] \<Rightarrow> completedCountsRef st = bumpCount rid cc \<and> t0 + 7000 < T
      | bus # rest \<Rightarrow>
          rest = [] \<and> path bus = pth \<and> routeId bus = rid \<and> completedCountsRef st = cc \<and>
          busOnTime t0 T bus)"

text \<open>
  The state chart of the specification for the three-stop example (travel 2000 ms, dwell
  1000 ms, final dwell 2000 ms), on a phase with the time of its last state change: a
  segment is complete when the elapsed time has reached the travel time, a dwell is over
  when the elapsed time exceeds it. \<open>chartRun\<close> applies it to the frame times in turn, from
  the spawn at \<open>t0\<close>. \<open>chartOf\<close> relates a fleet of one vehicle to a chart state; a fleet that
  the vehicle has left stands for phase 4.
\<close>

definition chartStep :: "real \<Rightarrow> nat \<times> real \<Rightarrow> nat \<times> real" where
  "chartStep time s =
     (case s of (k, since) \<Rightarrow>
        if k = 0 \<and> time - since \<ge> 2000 then (1, time)
        else if k = 1 \<and> time - since > 1000 then (2, time)
        else if k = 2 \<and> time - since \<ge> 2000 then (3, time)
        else if k = 3 \<and> time - since > 2000 then (4, time)
        else (k, since))"

definition chartRun :: "real \<Rightarrow> real list \<Rightarrow> nat \<times> real" where
  "chartRun t0 ts = foldl (\<lambda>s time. chartStep time s) (0, t0) ts"

definition chartOf :: "SimState \<Rightarrow> nat \<times> real \<Rightarrow> bool" where
  "chartOf st s \<longleftrightarrow>
     (case busesRef st of
        [] \<Rightarrow> fst s = 4
      | bus # rest \<Rightarrow> s = (busPhase bus, lastStateChangeTime bus))"

text \<open>
  Frames that keep coming: \<open>framesWithin d prev ts\<close> says that every frame of \<open>ts\<close> is at most
  \<open>d\<close> later than the frame before it, the first one at most \<open>d\<close> later than \<open>prev\<close>.
  \<open>chartPrompt\<close> is what this gives for a chart state when the last frame was at \<open>prev\<close>: how
  late the last state change can have happened, and that the present phase is not overdue.
\<close>

fun framesWithin :: "real \<Rightarrow> real \<Rightarrow> real list \<Rightarrow> bool" where
  "framesWithin d prev [] = True"
| "framesWithin d prev (time # later) = (time - prev \<le> d \<and> framesWithin d time later)"

definition chartPrompt :: "real \<Rightarrow> real \<Rightarrow> real \<Rightarrow> nat \<times> real \<Rightarrow> bool" where
  "chartPrompt d t0 prev s \<longleftrightarrow>
     (case s of (k, since) \<Rightarrow>
        (k = 0 \<and> since = t0 \<and> prev - since < 2000)
      \<or> (k = 1 \<and> since \<le> t0 + 2000 + d \<and> prev - since \<le> 1000)
      \<or> (k = 2 \<and> since \<le> t0 + 3000 + 2 * d \<and> prev - since < 2000)
      \<or> (k = 3 \<and> since \<le> t0 + 5000 + 3 * d \<and> prev - since \<le> 2000)
      \<or> k = 4)"

definition servedABC :: "(string \<rightharpoonup> Node) \<Rightarrow> Edge list \<Rightarrow> string \<Rightarrow> string \<Rightarrow> string \<Rightarrow> bool" where
  "servedABC nodes edges a b c \<longleftrightarrow>
     find (\<lambda>e. edge_from e = a \<and> edge_to e = b) edges \<noteq> None
   \<and> find (\<lambda>e. edge_from e = b \<and> edge_to e = c) edges \<noteq> None
   \<and> nodes a \<noteq> None \<and> nodes b \<noteq> None \<and> nodes c \<noteq> None"

subsection \<open>Example networks and vehicles\<close>

text \<open>
  The three stops \<open>A\<close>, \<open>B\<close>, \<open>C\<close> with the edges \<open>A\<rightarrow>B\<close> and \<open>B\<rightarrow>C\<close> and one vehicle
  spawned at time 0; a vehicle of route 1 on the last segment of its path; a vehicle whose
  next stop has no edge; a vehicle waiting at a stop; a vehicle waiting at its last stop.
\<close>

definition abc_nodes :: "string \<rightharpoonup> Node" where
  "abc_nodes = map_of
     [(''A'', mkNode ''A'' 0 0 terminal),
      (''B'', mkNode ''B'' 100 0 stop),
      (''C'', mkNode ''C'' 200 0 terminal)]"

definition abc_edges :: "Edge list" where
  "abc_edges = [mkEdge ''A'' ''B'' 0 0, mkEdge ''B'' ''C'' 0 0]"

definition abc_route :: Route where
  "abc_route = \<lparr>route_ident = 1, route_title = ''ABC'', route_path = [''A'', ''B'', ''C''],
                route_color = ''#3b82f6''\<rparr>"

definition abc_bus :: SimulatedBus where
  "abc_bus = newBus ''bus-1-0'' 1 abc_route 0 (mkNode ''A'' 0 0 terminal)"

definition abc_start :: SimState where
  "abc_start = \<lparr>busesRef = [abc_bus], completedCountsRef = Map.empty\<rparr>"

definition last_leg_bus :: SimulatedBus where
  "last_leg_bus = \<lparr>bus_id = ''bus-1-0'', routeId = 1, color = ''#10b981'',
                   path = [''B1'', ''B2'', ''B3'', ''B4'', ''B5''],
                   currentSegment = 3, state = MOVING, lastStateChangeTime = 9003,
                   bus_x = 550, bus_y = 200, rotation = 0\<rparr>"

definition lost_bus :: SimulatedBus where
  "lost_bus = \<lparr>bus_id = ''bus-7-3'', routeId = 7, color = ''#ef4444'', path = [''B1'', ''B9''],
               currentSegment = 0, state = MOVING, lastStateChangeTime = 0,
               bus_x = 100, bus_y = 350, rotation = 0\<rparr>"

definition resting_bus :: SimulatedBus where
  "resting_bus = \<lparr>bus_id = ''bus-1-2'', routeId = 1, color = ''#10b981'',
                  path = [''B1'', ''B2'', ''B3'', ''B4'', ''B5''],
                  currentSegment = 0, state = WAITING, lastStateChangeTime = 400,
                  bus_x = 250, bus_y = 350, rotation = 0\<rparr>"

definition arriving_bus :: SimulatedBus where
  "arriving_bus = \<lparr>bus_id = ''bus-1-0'', routeId = 1, color = ''#3b82f6'',
                   path = [''A'', ''B'', ''C''],
                   currentSegment = 1, state = WAITING_FINAL, lastStateChangeTime = 5001,
                   bus_x = 200, bus_y = 0, rotation = 0\<rparr>"

section \<open>Geometry: the curve point\<close>

text \<open>
  C8. For all control points and every \<open>t\<close>, \<open>getQuadraticBezierPoint\<close> is the quadratic
  B\'ezier point \<open>B(t)\<close> componentwise; at \<open>t = 0\<close> it is exactly \<open>p0\<close> and at \<open>t = 1\<close> exactly
  \<open>p2\<close>.
\<close>

theorem getQuadraticBezierPoint_is_bezier:
  "getQuadraticBezierPoint t p0 p1 p2 = bezier_spec t p0 p1 p2
   \<and> px (getQuadraticBezierPoint t p0 p1 p2)
       = (1 - t)\<^sup>2 * px p0 + 2 * (1 - t) * t * px p1 + t\<^sup>2 * px p2
   \<and> py (getQuadraticBezierPoint t p0 p1 p2)
       = (1 - t)\<^sup>2 * py p0 + 2 * (1 - t) * t * py p1 + t\<^sup>2 * py p2
   \<and> getQuadraticBezierPoint 0 p0 p1 p2 = p0
   \<and> getQuadraticBezierPoint 1 p0 p1 p2 = p2"
  by (simp add: getQuadraticBezierPoint_def bezier_spec_def add_point_def scale_point_def
      power2_eq_square Let_def)

section \<open>Graph search: termination and shortest paths\<close>

lemma bfsLoop_Nil: "bfsLoop endId edges [] visited = Some None"
  by (subst bfsLoop.simps) simp

lemma bfsLoop_Cons:
  "bfsLoop endId edges ((cid, cpath) # rest) visited =
     (if cid = endId then Some (Some cpath)
      else bfsLoop endId edges
             (snd (visitNeighbors cpath (neighborsOf edges cid) visited rest))
             (fst (visitNeighbors cpath (neighborsOf edges cid) visited rest)))"
  by (subst bfsLoop.simps) (simp split: prod.splits)

lemma visitNeighbors_char:
  "\<exists>fresh. visitNeighbors p ns v q = (v \<union> set ns, q @ map (\<lambda>n. (n, p @ [n])) fresh)
         \<and> set fresh = set ns - v \<and> distinct fresh"
proof (induction ns arbitrary: v q)
  case Nil
  show ?case by (rule exI[of _ "[]"]) simp
next
  case (Cons n ns)
  show ?case
  proof (cases "n \<in> v")
    case True
    from Cons.IH[of v q] obtain fresh where
      "visitNeighbors p ns v q = (v \<union> set ns, q @ map (\<lambda>n. (n, p @ [n])) fresh)"
      "set fresh = set ns - v" "distinct fresh" by blast
    with True show ?thesis
      by (intro exI[of _ fresh]) auto
  next
    case False
    from Cons.IH[of "insert n v" "q @ [(n, p @ [n])]"] obtain fresh where f:
      "visitNeighbors p ns (insert n v) (q @ [(n, p @ [n])])
         = (insert n v \<union> set ns, (q @ [(n, p @ [n])]) @ map (\<lambda>n. (n, p @ [n])) fresh)"
      "set fresh = set ns - insert n v" "distinct fresh" by blast
    with False show ?thesis
      by (intro exI[of _ "n # fresh"]) auto
  qed
qed

lemma visitNeighbors_measure:
  "finite T \<Longrightarrow> set ns \<subseteq> T \<Longrightarrow>
   card (T - fst (visitNeighbors p ns v q)) + length (snd (visitNeighbors p ns v q))
     = card (T - v) + length q"
proof (induction ns arbitrary: v q)
  case Nil
  then show ?case by simp
next
  case (Cons n ns)
  show ?case
  proof (cases "n \<in> v")
    case True
    with Cons show ?thesis by simp
  next
    case False
    have nT: "n \<in> T - v" using False Cons.prems by simp
    have "T - insert n v = (T - v) - {n}" by auto
    then have "card (T - insert n v) = card (T - v) - 1"
      using nT Cons.prems(1) by (simp add: card_Diff_singleton)
    moreover have "card (T - v) > 0"
      using nT Cons.prems(1) by (metis card_gt_0_iff empty_iff finite_Diff)
    ultimately show ?thesis
      using False Cons.IH[of "insert n v" "q @ [(n, p @ [n])]"] Cons.prems by simp
  qed
qed

lemma bfsLoop_terminates: "\<exists>r. bfsLoop endId edges queue visited = Some r"
proof (induction "card (edge_to ` set edges - visited) + length queue"
       arbitrary: queue visited rule: less_induct)
  case less
  show ?case
  proof (cases queue)
    case Nil
    then show ?thesis by (simp add: bfsLoop_Nil)
  next
    case (Cons current rest)
    obtain cid cpath where c: "current = (cid, cpath)" by (cases current)
    show ?thesis
    proof (cases "cid = endId")
      case True
      then show ?thesis using Cons c by (simp add: bfsLoop_Cons)
    next
      case False
      let ?r = "visitNeighbors cpath (neighborsOf edges cid) visited rest"
      have "set (neighborsOf edges cid) \<subseteq> edge_to ` set edges"
        by (auto simp: neighborsOf_def)
      then have "card (edge_to ` set edges - fst ?r) + length (snd ?r)
                  = card (edge_to ` set edges - visited) + length rest"
        by (intro visitNeighbors_measure) auto
      then have "card (edge_to ` set edges - fst ?r) + length (snd ?r)
                  < card (edge_to ` set edges - visited) + length queue"
        using Cons by simp
      from less[OF this] show ?thesis
        using Cons c False by (simp add: bfsLoop_Cons)
    qed
  qed
qed

lemma is_walk_snoc:
  "is_walk es (p @ [w]) \<longleftrightarrow>
     (p = [] \<or> (is_walk es p \<and> (\<exists>e \<in> set es. edge_from e = last p \<and> edge_to e = w)))"
  by (induction es p rule: is_walk.induct) auto

lemma directed_path_single: "directed_path es s s [s]"
  by (simp add: directed_path_def)

lemma directed_path_snoc:
  "directed_path es s v p \<Longrightarrow> e \<in> set es \<Longrightarrow> edge_from e = v \<Longrightarrow> edge_to e = w
   \<Longrightarrow> directed_path es s w (p @ [w])"
  by (auto simp: directed_path_def is_walk_snoc)

lemma directed_path_reach: "directed_path es s t p \<Longrightarrow> reach es s (length p - 1) t"
proof (induction p arbitrary: t rule: rev_induct)
  case Nil
  then show ?case by (simp add: directed_path_def)
next
  case (snoc w q)
  show ?case
  proof (cases "q = []")
    case True
    with snoc.prems show ?thesis by (auto simp: directed_path_def intro: reach_0)
  next
    case False
    from snoc.prems False have wt: "w = t" and walk: "is_walk es q"
      and hd: "hd q = s"
      and edge: "\<exists>e \<in> set es. edge_from e = last q \<and> edge_to e = w"
      by (auto simp: directed_path_def is_walk_snoc)
    from False walk hd have "directed_path es s (last q) q"
      by (simp add: directed_path_def)
    then have "reach es s (length q - 1) (last q)" by (rule snoc.IH)
    with edge have "reach es s (Suc (length q - 1)) w"
      by (auto intro: reach_Suc)
    with False wt show ?thesis by simp
  qed
qed

lemma reach_directed_path: "reach es s n t \<Longrightarrow> \<exists>p. directed_path es s t p \<and> length p = Suc n"
proof (induction rule: reach.induct)
  case reach_0
  show ?case by (rule exI[of _ "[s]"]) (simp add: directed_path_single)
next
  case (reach_Suc n v e w)
  then obtain p where "directed_path es s v p" "length p = Suc n" by blast
  with reach_Suc.hyps show ?case
    by (intro exI[of _ "p @ [w]"]) (simp add: directed_path_snoc)
qed

lemma neighborsOf_iff:
  "w \<in> set (neighborsOf es c) \<longleftrightarrow> (\<exists>e \<in> set es. edge_from e = c \<and> edge_to e = w)"
  by (auto simp: neighborsOf_def)

lemma settled_mono: "settled es t K w \<Longrightarrow> K \<subseteq> K' \<Longrightarrow> settled es t K' w"
  by (auto simp: settled_def)

lemma bfs_inv_settled:
  assumes inv: "bfs_inv s t es q v"
    and mem: "w \<in> insert s v"
    and r: "reach es s k w"
    and small: "\<forall>(u, p') \<in> set q. k + 1 < length p'"
  shows "settled es t (insert s v) w"
proof (rule ccontr)
  assume ns: "\<not> settled es t (insert s v) w"
  from inv mem have "settled es t (insert s v) w \<or> w \<in> fst ` set q"
    unfolding bfs_inv_def by blast
  with ns obtain p' where in_q: "(w, p') \<in> set q" by force
  from inv in_q have "settled es t (insert s v) w \<or> (\<forall>n. reach es s n w \<longrightarrow> length p' \<le> n + 1)"
    unfolding bfs_inv_def by blast
  with ns r have "length p' \<le> k + 1" by blast
  moreover from small in_q have "k + 1 < length p'" by blast
  ultimately show False by simp
qed

lemma bfs_inv_closed:
  assumes inv: "bfs_inv s t es q v"
    and r: "reach es s k w"
    and small: "\<forall>(u, p') \<in> set q. k + 1 < length p'"
  shows "w \<in> insert s v \<and> settled es t (insert s v) w"
  using r small
proof (induction rule: reach.induct)
  case reach_0
  then show ?case using bfs_inv_settled[OF inv _ reach.reach_0] by simp
next
  case (reach_Suc n u e w)
  from reach_Suc.prems have "\<forall>(u, p') \<in> set q. n + 1 < length p'" by auto
  with reach_Suc.IH have "settled es t (insert s v) u" by blast
  with reach_Suc.hyps have mem: "w \<in> insert s v" by (auto simp: settled_def)
  have "reach es s (Suc n) w" using reach_Suc.hyps by (auto intro: reach.reach_Suc)
  from bfs_inv_settled[OF inv mem this reach_Suc.prems] mem show ?case by simp
qed

lemma bfs_inv_init: "bfs_inv s t es [(s, [s])] {}"
  by (simp add: bfs_inv_def directed_path_single)

lemma bfs_inv_head_min:
  assumes inv: "bfs_inv s t es ((c, p) # rest) v" and "(u, p') \<in> set ((c, p) # rest)"
  shows "length p \<le> length p'"
  using assms unfolding bfs_inv_def by (auto)

lemma bfs_inv_step:
  assumes inv: "bfs_inv s t es ((c, p) # rest) v" and ct: "c \<noteq> t"
  shows "bfs_inv s t es (snd (visitNeighbors p (neighborsOf es c) v rest))
                        (fst (visitNeighbors p (neighborsOf es c) v rest))"
proof -
  let ?N = "set (neighborsOf es c)"
  let ?f = "\<lambda>n. (n, p @ [n])"
  let ?K = "insert s v"
  obtain fresh where vn: "visitNeighbors p (neighborsOf es c) v rest = (v \<union> ?N, rest @ map ?f fresh)"
    and fresh: "set fresh = ?N - v"
    using visitNeighbors_char[of p "neighborsOf es c" v rest] by blast
  let ?v' = "v \<union> ?N"
  let ?q' = "rest @ map ?f fresh"
  let ?K' = "insert s ?v'"
  have KK': "?K \<subseteq> ?K'" by auto
  have path_c: "directed_path es s c p" and c_known: "c \<in> ?K"
    using inv unfolding bfs_inv_def by auto
  have p_ne: "p \<noteq> []" using path_c by (simp add: directed_path_def)
  have i1: "\<forall>(w, p') \<in> set rest. directed_path es s w p' \<and> w \<in> ?K"
    using inv unfolding bfs_inv_def by auto
  have i2: "\<forall>w \<in> ?K. settled es t ?K w \<or> w \<in> fst ` set ((c, p) # rest)"
    using inv unfolding bfs_inv_def by blast
  have i3: "sorted (map (\<lambda>it. length (snd it)) rest)"
    and i3': "\<forall>(w, p') \<in> set rest. length p \<le> length p' \<and> length p' \<le> length p + 1"
    using inv unfolding bfs_inv_def by auto
  have i4: "\<forall>(w, p') \<in> set rest. settled es t ?K w \<or> (\<forall>n. reach es s n w \<longrightarrow> length p' \<le> n + 1)"
    using inv unfolding bfs_inv_def by auto
  have c_settled: "settled es t ?K' c"
    using ct by (auto simp: settled_def neighborsOf_iff)
  have s_settled: "settled es t ?K' s" if "s \<in> set fresh"
  proof (cases "settled es t ?K s")
    case True
    then show ?thesis using KK' by (rule settled_mono)
  next
    case False
    with i2 obtain p' where in_q: "(s, p') \<in> set ((c, p) # rest)" by force
    from inv in_q False have "\<forall>n. reach es s n s \<longrightarrow> length p' \<le> n + 1"
      unfolding bfs_inv_def by blast
    then have "length p' \<le> 1" using reach_0[of es s] by force
    moreover have "length p \<le> length p'" using bfs_inv_head_min[OF inv in_q] .
    ultimately have "length p \<le> 1" by simp
    with p_ne obtain a where "p = [a]" by (cases p) auto
    with path_c have "c = s" by (auto simp: directed_path_def)
    with c_settled show ?thesis by simp
  qed
  have c1: "\<forall>(w, p') \<in> set ?q'. directed_path es s w p' \<and> w \<in> ?K'"
  proof -
    have "directed_path es s n (p @ [n]) \<and> n \<in> ?K'" if "n \<in> set fresh" for n
    proof -
      from that fresh have "n \<in> ?N" by simp
      then obtain e where "e \<in> set es" "edge_from e = c" "edge_to e = n"
        by (auto simp: neighborsOf_iff)
      with path_c have "directed_path es s n (p @ [n])" by (rule directed_path_snoc)
      with \<open>n \<in> ?N\<close> show ?thesis by simp
    qed
    with i1 show ?thesis by auto
  qed
  have c2: "\<forall>w \<in> ?K'. settled es t ?K' w \<or> w \<in> fst ` set ?q'"
  proof
    fix w assume w: "w \<in> ?K'"
    show "settled es t ?K' w \<or> w \<in> fst ` set ?q'"
    proof (cases "w \<in> ?K")
      case True
      with i2 have "settled es t ?K w \<or> w = c \<or> w \<in> fst ` set rest" by auto
      then show ?thesis using settled_mono[OF _ KK'] c_settled by auto
    next
      case False
      with w fresh have "w \<in> set fresh" by auto
      then have "w \<in> fst ` set ?q'" by force
      then show ?thesis by simp
    qed
  qed
  have c3: "sorted (map (\<lambda>it. length (snd it)) ?q')"
  proof -
    have "sorted (map (\<lambda>it. length (snd it)) (map ?f fresh))"
      by (induction fresh) auto
    with i3 i3' show ?thesis by (auto simp: sorted_append)
  qed
  have c3': "\<forall>(w, p') \<in> set ?q'. length p' \<le> length (snd (hd ?q')) + 1"
  proof (cases rest)
    case Nil
    then show ?thesis by (cases fresh) auto
  next
    case (Cons a rest')
    then have "length p \<le> length (snd a)" using i3' by auto
    moreover have "hd ?q' = a" using Cons by simp
    ultimately show ?thesis using i3' by auto
  qed
  have c4: "\<forall>(w, p') \<in> set ?q'. settled es t ?K' w \<or> (\<forall>n. reach es s n w \<longrightarrow> length p' \<le> n + 1)"
  proof -
    have old: "settled es t ?K' w \<or> (\<forall>n. reach es s n w \<longrightarrow> length p' \<le> n + 1)"
      if "(w, p') \<in> set rest" for w p'
      using i4 that settled_mono[OF _ KK'] by blast
    have new: "settled es t ?K' n \<or> (\<forall>k. reach es s k n \<longrightarrow> length (p @ [n]) \<le> k + 1)"
      if nf: "n \<in> set fresh" for n
    proof (cases "n = s")
      case True
      with s_settled nf show ?thesis by simp
    next
      case False
      have "length p \<le> k" if r: "reach es s k n" for k
      proof (rule ccontr)
        assume "\<not> length p \<le> k"
        then have lt: "k < length p" by simp
        from r False obtain k' u e where k: "k = Suc k'" and ru: "reach es s k' u"
          and e: "e \<in> set es" "edge_from e = u" "edge_to e = n"
          by (cases rule: reach.cases) auto
        have "\<forall>(x, p') \<in> set ((c, p) # rest). k' + 1 < length p'"
          using lt k i3' by auto
        from bfs_inv_closed[OF inv ru this] have "settled es t ?K u" by simp
        with e have "n \<in> ?K" by (auto simp: settled_def)
        with False nf fresh show False by auto
      qed
      then show ?thesis by simp
    qed
    show ?thesis
    proof (rule ballI)
      fix x assume xm: "x \<in> set ?q'"
      obtain w p' where x: "x = (w, p')" by (cases x)
      from xm x consider "(w, p') \<in> set rest" | "w \<in> set fresh" "p' = p @ [w]" by auto
      then have "settled es t ?K' w \<or> (\<forall>n. reach es s n w \<longrightarrow> length p' \<le> n + 1)"
      proof cases
        case 1
        from old[OF 1] show ?thesis .
      next
        case 2
        from new[OF 2(1)] 2(2) show ?thesis by simp
      qed
      with x show "case x of (w, p') \<Rightarrow> settled es t ?K' w
                     \<or> (\<forall>n. reach es s n w \<longrightarrow> length p' \<le> n + 1)" by simp
    qed
  qed
  from c1 c2 c3 c3' c4 show ?thesis
    unfolding vn fst_conv snd_conv bfs_inv_def by blast
qed

lemma bfsLoop_correct:
  assumes "bfs_inv s t es q v" and "s \<noteq> t"
  shows "\<exists>r. bfsLoop t es q v = Some r \<and>
           (case r of
              None \<Rightarrow> (\<forall>n. \<not> reach es s n t)
            | Some p \<Rightarrow> directed_path es s t p \<and> (\<forall>n. reach es s n t \<longrightarrow> length p \<le> n + 1))"
  using assms(1)
proof (induction "card (edge_to ` set es - v) + length q" arbitrary: q v rule: less_induct)
  case less
  note inv = less.prems
  show ?case
  proof (cases q)
    case Nil
    have "\<not> reach es s n t" for n
    proof
      assume "reach es s n t"
      from bfs_inv_closed[OF inv this] Nil have "settled es t (insert s v) t" by simp
      then show False by (simp add: settled_def)
    qed
    with Nil show ?thesis by (simp add: bfsLoop_Nil)
  next
    case (Cons current rest)
    obtain c p where cur: "current = (c, p)" by (cases current)
    note q = Cons[unfolded cur]
    show ?thesis
    proof (cases "c = t")
      case True
      from inv q True have dp: "directed_path es s t p"
        unfolding bfs_inv_def by auto
      from inv q True have
        "settled es t (insert s v) t \<or> (\<forall>n. reach es s n t \<longrightarrow> length p \<le> n + 1)"
        unfolding bfs_inv_def by auto
      then have "\<forall>n. reach es s n t \<longrightarrow> length p \<le> n + 1"
        by (simp add: settled_def)
      with dp q True show ?thesis by (simp add: bfsLoop_Cons)
    next
      case False
      let ?r = "visitNeighbors p (neighborsOf es c) v rest"
      have "set (neighborsOf es c) \<subseteq> edge_to ` set es"
        by (auto simp: neighborsOf_def)
      then have "card (edge_to ` set es - fst ?r) + length (snd ?r)
                  = card (edge_to ` set es - v) + length rest"
        by (intro visitNeighbors_measure) auto
      then have m: "card (edge_to ` set es - fst ?r) + length (snd ?r)
                  < card (edge_to ` set es - v) + length q"
        using q by simp
      have "bfs_inv s t es (snd ?r) (fst ?r)"
        using inv False unfolding q by (rule bfs_inv_step)
      from less.hyps[OF m this] show ?thesis
        using q False by (simp add: bfsLoop_Cons)
    qed
  qed
qed

lemma findPath_cases:
  "\<exists>r. findPath s t es = Some r \<and>
     (case r of
        None \<Rightarrow> (\<forall>q. \<not> directed_path es s t q)
      | Some p \<Rightarrow> directed_path es s t p \<and> (\<forall>q. directed_path es s t q \<longrightarrow> length p \<le> length q))"
proof (cases "s = t")
  case True
  have "length [t] \<le> length q" if "directed_path es t t q" for q
    using that by (cases q) (auto simp: directed_path_def)
  with True show ?thesis
    by (simp add: findPath_def directed_path_single)
next
  case False
  from bfsLoop_correct[OF bfs_inv_init False, of es] obtain r where
    r: "bfsLoop t es [(s, [s])] {} = Some r"
    and c: "case r of
              None \<Rightarrow> (\<forall>n. \<not> reach es s n t)
            | Some p \<Rightarrow> directed_path es s t p \<and> (\<forall>n. reach es s n t \<longrightarrow> length p \<le> n + 1)"
    by blast
  have fp: "findPath s t es = Some r" using False r by (simp add: findPath_def)
  show ?thesis
  proof (cases r)
    case None
    with c have "\<not> directed_path es s t q" for q
      using directed_path_reach[of es s t q] by auto
    with fp None show ?thesis by simp
  next
    case (Some p)
    have "length p \<le> length q" if dq: "directed_path es s t q" for q
    proof -
      from dq have "q \<noteq> []" by (simp add: directed_path_def)
      moreover from c Some directed_path_reach[OF dq] have "length p \<le> length q - 1 + 1" by simp
      ultimately show ?thesis by (cases q) auto
    qed
    with fp Some c show ?thesis by simp
  qed
qed

text \<open>
  C1. For every edge list and every pair of stops, a path returned by \<open>findPath\<close> is a
  directed path from start to end with the least number of edges among all directed paths;
  whenever a directed path exists one is returned; \<^verbatim>\<open>null\<close> is returned exactly when no
  directed path exists; and for equal start and end the result is the single-element path,
  whatever the edges.
\<close>

theorem findPath_shortest_path:
  "(\<forall>p. findPath s t es = Some (Some p) \<longrightarrow>
        directed_path es s t p \<and>
        (\<forall>q. directed_path es s t q \<longrightarrow> length p - 1 \<le> length q - 1))
   \<and> ((\<exists>q. directed_path es s t q) \<longrightarrow> (\<exists>p. findPath s t es = Some (Some p)))
   \<and> (findPath s t es = Some None \<longleftrightarrow> \<not> (\<exists>q. directed_path es s t q))
   \<and> findPath s s es = Some (Some [s])"
proof -
  from findPath_cases[of s t es] obtain r where
    fp: "findPath s t es = Some r"
    and c: "case r of
        None \<Rightarrow> (\<forall>q. \<not> directed_path es s t q)
      | Some p \<Rightarrow> directed_path es s t p \<and> (\<forall>q. directed_path es s t q \<longrightarrow> length p \<le> length q)"
    by blast
  have last: "findPath s s es = Some (Some [s])" by (simp add: findPath_def)
  show ?thesis
  proof (cases r)
    case None
    with fp c last show ?thesis by simp
  next
    case (Some p)
    with fp c last show ?thesis by (auto intro: diff_le_mono)
  qed
qed

theorem findPath_shortest_path_witness:
  "findPath ''B1'' ''B9'' EDGES = Some (Some [''B1'', ''B2'', ''B3'', ''B6'', ''B8'', ''B9''])
   \<and> directed_path EDGES ''B1'' ''B9'' [''B1'', ''B2'', ''B3'', ''B6'', ''B8'', ''B9'']
   \<and> \<not> (\<exists>q. directed_path EDGES ''B1'' ''B9'' q \<and> length q - 1 < 5)
   \<and> findPath ''B9'' ''B1'' EDGES = Some None
   \<and> \<not> (\<exists>q. directed_path EDGES ''B9'' ''B1'' q)"
proof -
  have a: "findPath ''B1'' ''B9'' EDGES = Some (Some [''B1'', ''B2'', ''B3'', ''B6'', ''B8'', ''B9''])"
    by (simp add: findPath_def bfsLoop_Cons bfsLoop_Nil EDGES_def mkEdge_def neighborsOf_def)
  have b: "findPath ''B9'' ''B1'' EDGES = Some None"
    by (simp add: findPath_def bfsLoop_Cons bfsLoop_Nil EDGES_def mkEdge_def neighborsOf_def)
  from a findPath_shortest_path[of "''B1''" "''B9''" EDGES]
  have "directed_path EDGES ''B1'' ''B9'' [''B1'', ''B2'', ''B3'', ''B6'', ''B8'', ''B9'']"
    and "\<forall>q. directed_path EDGES ''B1'' ''B9'' q \<longrightarrow> 5 \<le> length q - 1"
    by auto
  moreover from b findPath_shortest_path[of "''B9''" "''B1''" EDGES]
  have "\<not> (\<exists>q. directed_path EDGES ''B9'' ''B1'' q)" by simp
  ultimately show ?thesis using a b by (auto simp: not_less)
qed

text \<open>
  C9. \<open>findPath\<close> returns on every edge list and every pair of stops, cycles included. The
  reason is the one the visited set provides: the inner loop pushes exactly the neighbours
  that are not yet visited, each once, and marks them visited; the visited set never
  shrinks, so a stop is pushed at most once by the loop (the start stop, which is queued
  unmarked at the beginning, at most once more). Hence every iteration, which takes one
  entry from the queue, lowers the number of unvisited edge targets plus the queue length
  by exactly one, and the loop runs at most that many times.
\<close>

theorem findPath_terminates:
  "(\<exists>r. findPath startId endId edges = Some r)
   \<and> (\<exists>fresh. visitNeighbors cpath ns visited queue
                 = (visited \<union> set ns, queue @ map (\<lambda>n. (n, cpath @ [n])) fresh)
              \<and> set fresh = set ns - visited \<and> distinct fresh)
   \<and> card (edge_to ` set edges
             - fst (visitNeighbors cpath (neighborsOf edges cid) visited rest))
       + length (snd (visitNeighbors cpath (neighborsOf edges cid) visited rest)) + 1
     = card (edge_to ` set edges - visited) + length ((cid, cpath) # rest)"
proof -
  have "set (neighborsOf edges cid) \<subseteq> edge_to ` set edges"
    by (auto simp: neighborsOf_def)
  then have "card (edge_to ` set edges
                 - fst (visitNeighbors cpath (neighborsOf edges cid) visited rest))
           + length (snd (visitNeighbors cpath (neighborsOf edges cid) visited rest))
         = card (edge_to ` set edges - visited) + length rest"
    by (intro visitNeighbors_measure) auto
  with bfsLoop_terminates[of endId edges "[(startId, [startId])]" "{}"]
    visitNeighbors_char[of cpath ns visited queue]
  show ?thesis by (simp add: findPath_def)
qed

theorem findPath_terminates_witness:
  "findPath ''A'' ''C'' cyclic_edges = Some None
   \<and> findPath ''A'' ''B'' cyclic_edges = Some (Some [''A'', ''B''])"
  using findPath_terminates[of "''A''" "''C''" cyclic_edges]
  by (simp add: findPath_def bfsLoop_Cons bfsLoop_Nil cyclic_edges_def mkEdge_def neighborsOf_def)

section \<open>Dispatch scheduler: bounds\<close>













lemma routeBound_le: "routeBound tc route \<le> usableWindows route tc"
  by (simp add: routeBound_def)











section \<open>Fleet animation: state machine, telemetry and lane offset\<close>

lemma arrival_iff: "min ((time - l) / TRAVEL_DURATION) 1 \<ge> 1 \<longleftrightarrow> time - l \<ge> TRAVEL_DURATION"
  by (simp add: TRAVEL_DURATION_def)

lemma logicalView_eq_iff:
  "logicalView a = logicalView b \<longleftrightarrow>
     bus_id a = bus_id b \<and> routeId a = routeId b \<and> color a = color b \<and> path a = path b
     \<and> currentSegment a = currentSegment b \<and> state a = state b
     \<and> lastStateChangeTime a = lastStateChangeTime b \<and> rotation a = rotation b"
  by (cases a, cases b) (auto simp: logicalView_def)

lemma moveBus_fields:
  "bus_id (moveBus lw time bus f t e) = bus_id bus"
  "routeId (moveBus lw time bus f t e) = routeId bus"
  "color (moveBus lw time bus f t e) = color bus"
  "path (moveBus lw time bus f t e) = path bus"
  "currentSegment (moveBus lw time bus f t e) = currentSegment bus"
  by (simp_all add: moveBus_def Let_def)

lemma moveBus_state:
  "state (moveBus lw time bus f t e) =
     (if time - lastStateChangeTime bus \<ge> TRAVEL_DURATION
      then (if int (currentSegment bus) + 1 = int (length (path bus)) - 1
            then WAITING_FINAL else WAITING)
      else state bus)"
  unfolding moveBus_def Let_def arrival_iff by simp

lemma moveBus_last:
  "lastStateChangeTime (moveBus lw time bus f t e) =
     (if time - lastStateChangeTime bus \<ge> TRAVEL_DURATION then time
      else lastStateChangeTime bus)"
  unfolding moveBus_def Let_def arrival_iff by simp

lemma moveBus_rotation:
  "rotation (moveBus lw time bus f t e) =
     getQuadraticBezierAngle (min ((time - lastStateChangeTime bus) / TRAVEL_DURATION) 1)
       (node_point f)
       (calculateControlPoint (node_point f) (node_point t) (controlPointOffset e))
       (node_point t)"
  unfolding moveBus_def Let_def by simp

lemma moveBus_view:
  assumes "logicalView a = logicalView b"
  shows "logicalView (moveBus lw time a f t e) = logicalView (moveBus lw' time b f t e)"
  using assms unfolding logicalView_eq_iff
  by (simp add: moveBus_fields moveBus_state moveBus_last moveBus_rotation)

lemma logicalView_update:
  "logicalView a = logicalView b \<Longrightarrow> logicalView (a\<lparr>state := s\<rparr>) = logicalView (b\<lparr>state := s\<rparr>)"
  "logicalView a = logicalView b \<Longrightarrow>
     logicalView (a\<lparr>state := s, currentSegment := c, lastStateChangeTime := l\<rparr>)
     = logicalView (b\<lparr>state := s, currentSegment := c, lastStateChangeTime := l\<rparr>)"
  by (simp_all add: logicalView_eq_iff)

lemma stepBus_view:
  assumes "logicalView a = logicalView b"
  shows "map_sum id (\<lambda>(bus, pushed). (logicalView bus, pushed)) (stepBus lw nodes edges time a)
       = map_sum id (\<lambda>(bus, pushed). (logicalView bus, pushed)) (stepBus lw' nodes edges time b)"
proof -
  from assms have eq: "state a = state b" "currentSegment a = currentSegment b" "path a = path b"
    "lastStateChangeTime a = lastStateChangeTime b" "routeId a = routeId b"
    by (simp_all add: logicalView_eq_iff)
  show ?thesis
    unfolding stepBus_def Let_def eq
    by (auto simp: logicalView_update[OF assms] moveBus_view[OF assms] assms
             split: option.splits)
qed

lemma stepFleet_view:
  assumes "map logicalView as = map logicalView bs"
  shows "map_sum id (\<lambda>(fleet, pushed). (map logicalView fleet, pushed)) (stepFleet lw nodes edges time as)
       = map_sum id (\<lambda>(fleet, pushed). (map logicalView fleet, pushed)) (stepFleet lw' nodes edges time bs)"
  using assms
proof (induction as arbitrary: bs)
  case Nil
  then show ?case by simp
next
  case (Cons a as)
  then obtain b bs' where bs: "bs = b # bs'" and ab: "logicalView a = logicalView b"
    and rest: "map logicalView as = map logicalView bs'" by (cases bs) auto
  from stepBus_view[OF ab, of lw nodes edges time lw']
  consider e where "stepBus lw nodes edges time a = Inl e" "stepBus lw' nodes edges time b = Inl e"
    | a' b' pushed where "stepBus lw nodes edges time a = Inr (a', pushed)"
        "stepBus lw' nodes edges time b = Inr (b', pushed)" "logicalView a' = logicalView b'"
    by (cases "stepBus lw nodes edges time a"; cases "stepBus lw' nodes edges time b") auto
  then show ?case
  proof cases
    case 1
    then show ?thesis unfolding bs by simp
  next
    case 2
    from Cons.IH[OF rest]
    consider e where "stepFleet lw nodes edges time as = Inl e"
        "stepFleet lw' nodes edges time bs' = Inl e"
      | as' bs'' pushed' where "stepFleet lw nodes edges time as = Inr (as', pushed')"
        "stepFleet lw' nodes edges time bs' = Inr (bs'', pushed')"
        "map logicalView as' = map logicalView bs''"
      by (cases "stepFleet lw nodes edges time as"; cases "stepFleet lw' nodes edges time bs'") auto
    then show ?thesis
    proof cases
      case 1
      with 2 show ?thesis unfolding bs by simp
    next
      case 2
      with \<open>stepBus lw nodes edges time a = Inr (a', pushed)\<close>
        \<open>stepBus lw' nodes edges time b = Inr (b', pushed)\<close>
        \<open>logicalView a' = logicalView b'\<close>
      show ?thesis unfolding bs by simp
    qed
  qed
qed

lemma view_state: "logicalView a = logicalView b \<Longrightarrow> state a = state b"
  and view_routeId: "logicalView a = logicalView b \<Longrightarrow> routeId a = routeId b"
  by (simp_all add: logicalView_eq_iff)

lemma state_logicalView [simp]: "state (logicalView b) = state b"
  and routeId_logicalView [simp]: "routeId (logicalView b) = routeId b"
  by (simp_all add: logicalView_def)

lemma filter_view:
  "map logicalView (filter (\<lambda>b. state b \<noteq> FINISHED) as)
     = filter (\<lambda>b. state b \<noteq> FINISHED) (map logicalView as)"
  by (induction as) auto

lemma fold_bump_view:
  "fold (\<lambda>b. bumpCount (routeId b)) as m = fold (\<lambda>b. bumpCount (routeId b)) (map logicalView as) m"
  by (induction as arbitrary: m) auto

lemma handle_view:
  assumes "stateView st1 = stateView st0"
  shows "map_sum id (\<lambda>(st, stats). (stateView st, stats))
           (handleMultiBusAnimation lw nodes edges ra time st1)
       = map_sum id (\<lambda>(st, stats). (stateView st, stats))
           (handleMultiBusAnimation lw' nodes edges ra time st0)"
proof -
  from assms have fl: "map logicalView (busesRef st1) = map logicalView (busesRef st0)"
    and cc: "completedCountsRef st1 = completedCountsRef st0"
    by (cases st1, cases st0, simp add: stateView_def)+
  let ?o1 = "filter (\<lambda>bus. state bus \<noteq> FINISHED) (busesRef st1)"
  let ?o0 = "filter (\<lambda>bus. state bus \<noteq> FINISHED) (busesRef st0)"
  have "map logicalView ?o1 = map logicalView ?o0" by (simp add: filter_view fl)
  from stepFleet_view[OF this, of lw nodes edges time lw']
  consider e where "stepFleet lw nodes edges time ?o1 = Inl e"
      "stepFleet lw' nodes edges time ?o0 = Inl e"
    | s1 s0 pushed where "stepFleet lw nodes edges time ?o1 = Inr (s1, pushed)"
      "stepFleet lw' nodes edges time ?o0 = Inr (s0, pushed)"
      "map logicalView s1 = map logicalView s0"
    by (cases "stepFleet lw nodes edges time ?o1"; cases "stepFleet lw' nodes edges time ?o0") auto
  then show ?thesis
  proof cases
    case 1
    then show ?thesis by (simp add: handleMultiBusAnimation_def Let_def)
  next
    case 2
    let ?r1 = "filter (\<lambda>b. state b \<noteq> FINISHED) s1"
    let ?r0 = "filter (\<lambda>b. state b \<noteq> FINISHED) s0"
    have r: "map logicalView ?r1 = map logicalView ?r0" by (simp add: filter_view 2(3))
    have "fold (\<lambda>b. bumpCount (routeId b)) ?r1 Map.empty
        = fold (\<lambda>b. bumpCount (routeId b)) ?r0 Map.empty"
      using fold_bump_view[of ?r1] fold_bump_view[of ?r0] r by simp
    with 2 r show ?thesis
      by (simp add: handleMultiBusAnimation_def Let_def stateView_def cc)
  qed
qed

lemma runEvents_view:
  assumes "stateView st1 = stateView st0"
  shows "map_sum id (\<lambda>(st, sent). (stateView st, sent))
           (runEvents lw nodes edges routes ra events (st1, sent))
       = map_sum id (\<lambda>(st, sent). (stateView st, sent))
           (runEvents lw' nodes edges routes ra events (st0, sent))"
  using assms
proof (induction events arbitrary: st1 st0 sent)
  case Nil
  then show ?case by simp
next
  case (Cons ev events)
  from Cons.prems have fl: "map logicalView (busesRef st1) = map logicalView (busesRef st0)"
    by (cases st1, cases st0, simp add: stateView_def)
  then have emp: "busesRef st1 = [] \<longleftrightarrow> busesRef st0 = []" by (metis map_is_Nil_conv)
  show ?case
  proof (cases ev)
    case (Frame time)
    show ?thesis
    proof (cases "busesRef st1 = []")
      case True
      with emp Cons.IH[OF Cons.prems] Frame show ?thesis by simp
    next
      case False
      from handle_view[OF Cons.prems, of lw nodes edges ra time lw']
      consider e where "handleMultiBusAnimation lw nodes edges ra time st1 = Inl e"
          "handleMultiBusAnimation lw' nodes edges ra time st0 = Inl e"
        | a1 a0 stats where "handleMultiBusAnimation lw nodes edges ra time st1 = Inr (a1, stats)"
          "handleMultiBusAnimation lw' nodes edges ra time st0 = Inr (a0, stats)"
          "stateView a1 = stateView a0"
        by (cases "handleMultiBusAnimation lw nodes edges ra time st1";
            cases "handleMultiBusAnimation lw' nodes edges ra time st0") auto
      then show ?thesis
      proof cases
        case 1
        with False emp Frame show ?thesis by simp
      next
        case 2
        with False emp Frame Cons.IH[OF 2(3)] show ?thesis by simp
      qed
    qed
  next
    case (Spawn now requests)
    have "stateView (st1\<lparr>busesRef := busesRef st1 @ nb\<rparr>) = stateView (st0\<lparr>busesRef := busesRef st0 @ nb\<rparr>)"
      for nb
      using Cons.prems by (cases st1, cases st0, simp add: stateView_def)
    from Cons.IH[OF this] Spawn show ?thesis
      by (cases "spawnBuses nodes routes now requests") auto
  qed
qed

lemma countOf_bumpCount: "countOf (bumpCount k m) r = countOf m r + (if r = k then 1 else 0)"
  by (simp add: countOf_def bumpCount_def)

lemma countOf_fold_bump: "countOf (fold bumpCount xs m) r = countOf m r + count_list xs r"
  by (induction xs arbitrary: m) (auto simp: countOf_bumpCount)

lemma countOf_fold_bump_route:
  "countOf (fold (\<lambda>b. bumpCount (routeId b)) bs m) r
     = countOf m r + length (filter (\<lambda>b. routeId b = r) bs)"
  by (induction bs arbitrary: m) (auto simp: countOf_bumpCount)

lemma countOf_empty [simp]: "countOf Map.empty r = 0"
  by (simp add: countOf_def)

lemma stats_fold:
  "fold (\<lambda>r s. s(route_id r \<mapsto> \<lparr>active = f (route_id r), completed = g (route_id r)\<rparr>)) ra s0 k
     = (if k \<in> route_id ` set ra then Some \<lparr>active = f k, completed = g k\<rparr> else s0 k)"
  by (induction ra arbitrary: s0) auto

lemma stepBus_WAITING:
  "state b = WAITING \<Longrightarrow>
   stepBus lw nodes edges time b =
     (if time - lastStateChangeTime b > STOP_DURATION
      then Inr (b\<lparr>state := MOVING, currentSegment := currentSegment b + 1,
                   lastStateChangeTime := time\<rparr>, [])
      else Inr (b, []))"
  by (simp add: stepBus_def Let_def)

lemma stepBus_WAITING_FINAL:
  "state b = WAITING_FINAL \<Longrightarrow>
   stepBus lw nodes edges time b =
     (if time - lastStateChangeTime b > DESTINATION_WAIT
      then Inr (b\<lparr>state := FINISHED\<rparr>, [routeId b])
      else Inr (b, []))"
  by (simp add: stepBus_def Let_def)

lemma stepBus_moving:
  "state b \<noteq> WAITING \<Longrightarrow> state b \<noteq> WAITING_FINAL \<Longrightarrow>
   stepBus lw nodes edges time b =
     (if int (currentSegment b) \<ge> int (length (path b)) - 1
      then Inr (b\<lparr>state := FINISHED\<rparr>, [routeId b])
      else (case find (\<lambda>e. edge_from e = path b ! currentSegment b
                            \<and> edge_to e = path b ! Suc (currentSegment b)) edges of
              None \<Rightarrow> Inr (b\<lparr>state := FINISHED\<rparr>, [routeId b])
            | Some edge \<Rightarrow>
                (case nodes (path b ! currentSegment b) of
                   None \<Rightarrow> Inl TypeError
                 | Some fromNode \<Rightarrow>
                     (case nodes (path b ! Suc (currentSegment b)) of
                        None \<Rightarrow> Inl TypeError
                      | Some toNode \<Rightarrow> Inr (moveBus lw time b fromNode toNode edge, [])))))"
  by (simp add: stepBus_def Let_def)

lemma moveBus_not_finished:
  "state b \<noteq> FINISHED \<Longrightarrow> state (moveBus lw time b f t e) \<noteq> FINISHED"
  by (simp add: moveBus_state)

lemma stepBus_effect:
  assumes nf: "state b \<noteq> FINISHED" and step: "stepBus lw nodes edges time b = Inr (b', pushed)"
  shows "routeId b' = routeId b \<and> bus_id b' = bus_id b \<and> path b' = path b
       \<and> pushed = (if state b' = FINISHED then [routeId b] else [])"
proof (cases "state b")
  case MOVING
  then have m: "state b \<noteq> WAITING" "state b \<noteq> WAITING_FINAL" by simp_all
  show ?thesis
  proof (cases "int (currentSegment b) \<ge> int (length (path b)) - 1")
    case True
    with step show ?thesis unfolding stepBus_moving[OF m] by auto
  next
    case False
    show ?thesis
    proof (cases "find (\<lambda>e. edge_from e = path b ! currentSegment b
                            \<and> edge_to e = path b ! Suc (currentSegment b)) edges")
      case None
      with False step show ?thesis unfolding stepBus_moving[OF m] by auto
    next
      case (Some edge)
      with False step obtain f t where "b' = moveBus lw time b f t edge" "pushed = []"
        unfolding stepBus_moving[OF m] by (auto split: option.splits)
      with moveBus_not_finished[OF nf] show ?thesis by (simp add: moveBus_fields)
    qed
  qed
next
  case WAITING
  with step show ?thesis unfolding stepBus_WAITING[OF WAITING] by (auto split: if_splits)
next
  case WAITING_FINAL
  with step show ?thesis unfolding stepBus_WAITING_FINAL[OF WAITING_FINAL]
    by (auto split: if_splits)
next
  case FINISHED
  with nf show ?thesis by simp
qed

lemma stepFleet_effect:
  assumes "\<forall>b \<in> set bs. state b \<noteq> FINISHED" and "stepFleet lw nodes edges time bs = Inr (bs', pushed)"
  shows "bs' = map (steppedBus lw nodes edges time) bs
       \<and> map routeId bs' = map routeId bs \<and> map bus_id bs' = map bus_id bs
       \<and> pushed = map routeId (filter (\<lambda>b. state b = FINISHED) bs')"
  using assms
proof (induction bs arbitrary: bs' pushed)
  case Nil
  then show ?case by simp
next
  case (Cons b bs)
  obtain b1 p1 where sb: "stepBus lw nodes edges time b = Inr (b1, p1)"
    using Cons.prems(2) by (cases "stepBus lw nodes edges time b") auto
  obtain rest p2 where sf: "stepFleet lw nodes edges time bs = Inr (rest, p2)"
    using Cons.prems(2) sb by (cases "stepFleet lw nodes edges time bs") auto
  from Cons.prems(2) sb sf have res: "bs' = b1 # rest" "pushed = p1 @ p2" by simp_all
  from Cons.prems(1) have nf: "state b \<noteq> FINISHED" and nfs: "\<forall>b \<in> set bs. state b \<noteq> FINISHED"
    by auto
  have b1: "steppedBus lw nodes edges time b = b1" using sb by (simp add: steppedBus_def)
  from Cons.IH[OF nfs sf] have ih1: "rest = map (steppedBus lw nodes edges time) bs"
    and ih2: "map routeId rest = map routeId bs" and ih3: "map bus_id rest = map bus_id bs"
    and ih4: "p2 = map routeId (filter (\<lambda>b. state b = FINISHED) rest)" by blast+
  from stepBus_effect[OF nf sb] have e1: "routeId b1 = routeId b" and e2: "bus_id b1 = bus_id b"
    and e3: "p1 = (if state b1 = FINISHED then [routeId b] else [])" by blast+
  have "bs' = map (steppedBus lw nodes edges time) (b # bs)" using res ih1 b1 by simp
  moreover have "map routeId bs' = map routeId (b # bs)" using res ih2 e1 by simp
  moreover have "map bus_id bs' = map bus_id (b # bs)" using res ih3 e2 by simp
  moreover have "pushed = map routeId (filter (\<lambda>b. state b = FINISHED) bs')"
    using res ih4 e3 e1 by simp
  ultimately show ?case by blast
qed

lemma stepFleet_append:
  "stepFleet lw nodes edges time (xs @ ys) =
     (case stepFleet lw nodes edges time xs of
        Inl e \<Rightarrow> Inl e
      | Inr (xs', p) \<Rightarrow>
          (case stepFleet lw nodes edges time ys of
             Inl e \<Rightarrow> Inl e
           | Inr (ys', p') \<Rightarrow> Inr (xs' @ ys', p @ p')))"
proof (induction xs)
  case Nil
  show ?case by (cases "stepFleet lw nodes edges time ys") auto
next
  case (Cons x xs)
  show ?case
  proof (cases "stepBus lw nodes edges time x")
    case (Inl e)
    then show ?thesis by simp
  next
    case (Inr r)
    obtain x' px where r: "r = (x', px)" by (cases r)
    show ?thesis
    proof (cases "stepFleet lw nodes edges time xs")
      case (Inl e)
      with Inr r Cons show ?thesis by simp
    next
      case (Inr r')
      obtain xs' pxs where r': "r' = (xs', pxs)" by (cases r')
      show ?thesis
      proof (cases "stepFleet lw nodes edges time ys")
        case (Inl e)
        with \<open>stepBus lw nodes edges time x = Inr r\<close> r Inr r' Cons show ?thesis by simp
      next
        case (Inr r'')
        obtain ys' pys where "r'' = (ys', pys)" by (cases r'')
        with \<open>stepBus lw nodes edges time x = Inr r\<close> r
          \<open>stepFleet lw nodes edges time xs = Inr r'\<close> r' Inr Cons
        show ?thesis by simp
      qed
    qed
  qed
qed

lemma filter_split_length:
  "length (filter (\<lambda>b. P b \<and> Q b) xs) + length (filter (\<lambda>b. P b \<and> \<not> Q b) xs)
     = length (filter P xs)"
  by (induction xs) auto

lemma count_list_map_filter:
  "count_list (map f (filter Q xs)) r = length (filter (\<lambda>b. f b = r \<and> Q b) xs)"
  by (induction xs) auto

lemma length_filter_map_eq:
  "map f xs = map f ys \<Longrightarrow> length (filter (\<lambda>b. f b = r) xs) = length (filter (\<lambda>b. f b = r) ys)"
proof (induction xs arbitrary: ys)
  case Nil
  then show ?case by simp
next
  case (Cons x xs)
  then obtain y ys' where "ys = y # ys'" "f x = f y" "map f xs = map f ys'" by (cases ys) auto
  with Cons.IH[of ys'] show ?case by simp
qed

lemma handle_effect:
  assumes "handleMultiBusAnimation lw nodes edges ra time st = Inr (st', stats)"
  shows "\<exists>stepped pushed.
           stepFleet lw nodes edges time (filter (\<lambda>b. state b \<noteq> FINISHED) (busesRef st))
             = Inr (stepped, pushed)
         \<and> busesRef st' = filter (\<lambda>b. state b \<noteq> FINISHED) stepped
         \<and> completedCountsRef st' = fold bumpCount pushed (completedCountsRef st)
         \<and> (\<forall>k. stats k = (if k \<in> route_id ` set ra
                            then Some \<lparr>active = length (filter (\<lambda>b. routeId b = k) (busesRef st')),
                                       completed = countOf (completedCountsRef st') k\<rparr>
                            else None))"
proof -
  let ?ongoing = "filter (\<lambda>b. state b \<noteq> FINISHED) (busesRef st)"
  from assms obtain stepped pushed where
    sf: "stepFleet lw nodes edges time ?ongoing = Inr (stepped, pushed)"
    unfolding handleMultiBusAnimation_def Let_def
    by (cases "stepFleet lw nodes edges time ?ongoing") auto
  let ?cc = "fold bumpCount pushed (completedCountsRef st)"
  let ?rem = "filter (\<lambda>b. state b \<noteq> FINISHED) stepped"
  let ?ac = "fold (\<lambda>b. bumpCount (routeId b)) ?rem Map.empty"
  from assms sf have st': "st' = \<lparr>busesRef = ?rem, completedCountsRef = ?cc\<rparr>"
    and stats: "stats = fold (\<lambda>r s. s(route_id r \<mapsto>
                                  \<lparr>active = countOf ?ac (route_id r),
                                   completed = countOf ?cc (route_id r)\<rparr>)) ra Map.empty"
    unfolding handleMultiBusAnimation_def Let_def by simp_all
  have "stats k = (if k \<in> route_id ` set ra
                   then Some \<lparr>active = length (filter (\<lambda>b. routeId b = k) ?rem),
                              completed = countOf ?cc k\<rparr>
                   else None)" for k
    unfolding stats stats_fold[of "countOf ?ac" "countOf ?cc" ra Map.empty k]
    by (simp only: countOf_fold_bump_route countOf_empty add_0)
  with sf st' show ?thesis by simp
qed

lemma activeCount_nonfinished:
  "\<forall>b \<in> set bs. state b \<noteq> FINISHED \<Longrightarrow> activeCount r bs = length (filter (\<lambda>b. routeId b = r) bs)"
  by (induction bs) (auto simp: activeCount_def)

lemma activeCount_filter:
  "activeCount r (filter (\<lambda>b. state b \<noteq> FINISHED) bs) = activeCount r bs"
  by (induction bs) (auto simp: activeCount_def)

lemma activeCount_append: "activeCount r (xs @ ys) = activeCount r xs + activeCount r ys"
  by (simp add: activeCount_def)

lemma handle_conservation:
  assumes "handleMultiBusAnimation lw nodes edges ra time st = Inr (st', stats)"
  shows "countOf (completedCountsRef st') r + activeCount r (busesRef st')
       = countOf (completedCountsRef st) r + activeCount r (busesRef st)"
proof -
  let ?ongoing = "filter (\<lambda>b. state b \<noteq> FINISHED) (busesRef st)"
  from handle_effect[OF assms] obtain stepped pushed where
    sf: "stepFleet lw nodes edges time ?ongoing = Inr (stepped, pushed)"
    and rem: "busesRef st' = filter (\<lambda>b. state b \<noteq> FINISHED) stepped"
    and cc: "completedCountsRef st' = fold bumpCount pushed (completedCountsRef st)"
    by blast
  have nf: "\<forall>b \<in> set ?ongoing. state b \<noteq> FINISHED" by simp
  from stepFleet_effect[OF nf sf] have ids: "map routeId stepped = map routeId ?ongoing"
    and pushed: "pushed = map routeId (filter (\<lambda>b. state b = FINISHED) stepped)" by auto
  have "count_list pushed r + activeCount r (busesRef st')
      = length (filter (\<lambda>b. routeId b = r \<and> state b = FINISHED) stepped)
        + length (filter (\<lambda>b. routeId b = r \<and> \<not> state b = FINISHED) stepped)"
    unfolding pushed rem activeCount_filter
    by (simp add: count_list_map_filter activeCount_def)
  also have "\<dots> = length (filter (\<lambda>b. routeId b = r) stepped)"
    by (rule filter_split_length)
  also have "\<dots> = length (filter (\<lambda>b. routeId b = r) ?ongoing)"
    using ids by (rule length_filter_map_eq)
  also have "\<dots> = activeCount r ?ongoing"
    using nf by (simp add: activeCount_nonfinished)
  also have "\<dots> = activeCount r (busesRef st)" by (rule activeCount_filter)
  finally show ?thesis by (simp add: cc countOf_fold_bump)
qed

lemma handle_monotone:
  assumes "handleMultiBusAnimation lw nodes edges ra time st = Inr (st', stats)"
  shows "countOf (completedCountsRef st) r \<le> countOf (completedCountsRef st') r"
proof -
  from handle_effect[OF assms] obtain pushed where
    "completedCountsRef st' = fold bumpCount pushed (completedCountsRef st)" by blast
  then show ?thesis by (simp add: countOf_fold_bump)
qed

lemma handle_remaining:
  assumes "handleMultiBusAnimation lw nodes edges ra time st = Inr (st', stats)"
  shows "busesRef st' = filter (\<lambda>b. state b \<noteq> FINISHED)
           (map (steppedBus lw nodes edges time) (filter (\<lambda>b. state b \<noteq> FINISHED) (busesRef st)))"
proof -
  let ?ongoing = "filter (\<lambda>b. state b \<noteq> FINISHED) (busesRef st)"
  from handle_effect[OF assms] obtain stepped pushed where
    sf: "stepFleet lw nodes edges time ?ongoing = Inr (stepped, pushed)"
    and rem: "busesRef st' = filter (\<lambda>b. state b \<noteq> FINISHED) stepped"
    by blast
  have nf: "\<forall>b \<in> set ?ongoing. state b \<noteq> FINISHED" by simp
  from stepFleet_effect[OF nf sf] rem show ?thesis by simp
qed

lemma steppedBus_id:
  assumes "state b \<noteq> FINISHED"
  shows "bus_id (steppedBus lw nodes edges time b) = bus_id b"
proof (cases "stepBus lw nodes edges time b")
  case (Inl e)
  then show ?thesis by (simp add: steppedBus_def)
next
  case (Inr r)
  obtain b' pushed where r: "r = (b', pushed)" by (cases r)
  from stepBus_effect[OF assms Inr[unfolded r]] Inr r show ?thesis
    by (simp add: steppedBus_def)
qed

lemma handle_ids:
  assumes "handleMultiBusAnimation lw nodes edges ra time st = Inr (st', stats)"
  shows "map bus_id (busesRef st')
       = map bus_id (filter (\<lambda>b. state b \<noteq> FINISHED
                                \<and> state (steppedBus lw nodes edges time b) \<noteq> FINISHED)
                      (busesRef st))"
proof -
  have "map bus_id (filter (\<lambda>b. state b \<noteq> FINISHED) (map (steppedBus lw nodes edges time) xs))
      = map bus_id (filter (\<lambda>b. state (steppedBus lw nodes edges time b) \<noteq> FINISHED) xs)"
    if "\<forall>b \<in> set xs. state b \<noteq> FINISHED" for xs
    using that by (induction xs) (auto simp: steppedBus_id)
  from this[of "filter (\<lambda>b. state b \<noteq> FINISHED) (busesRef st)"]
  show ?thesis unfolding handle_remaining[OF assms]
    by (simp add: conj_commute)
qed

lemma spawnBuses_MOVING:
  "spawnBuses nodes routes now requests = Inr nb \<Longrightarrow> \<forall>b \<in> set nb. state b = MOVING"
proof (induction requests arbitrary: nb)
  case Nil
  then show ?case by simp
next
  case (Cons rq requests)
  obtain ident rid where rq: "rq = (ident, rid)" by (cases rq)
  show ?case
  proof (cases "find (\<lambda>r. route_ident r = rid) routes")
    case None
    with Cons rq show ?thesis by simp
  next
    case (Some sr)
    show ?thesis
    proof (cases "length (route_path sr) > 0")
      case False
      with Cons rq Some show ?thesis by simp
    next
      case True
      with Cons.prems rq Some obtain sn rest where
        "nodes (route_path sr ! 0) = Some sn" "spawnBuses nodes routes now requests = Inr rest"
        "nb = newBus ident rid sr now sn # rest"
        by (auto split: option.splits sum.splits)
      with Cons.IH[of rest] show ?thesis by (simp add: newBus_def)
    qed
  qed
qed

lemma spawnBuses_segmentOk:
  assumes "\<forall>r \<in> set routes. length (route_path r) \<noteq> 1"
  shows "spawnBuses nodes routes now requests = Inr nb \<Longrightarrow> \<forall>b \<in> set nb. segmentOk b"
proof (induction requests arbitrary: nb)
  case Nil
  then show ?case by simp
next
  case (Cons rq requests)
  obtain ident rid where rq: "rq = (ident, rid)" by (cases rq)
  show ?case
  proof (cases "find (\<lambda>r. route_ident r = rid) routes")
    case None
    with Cons rq show ?thesis by simp
  next
    case (Some sr)
    then have "sr \<in> set routes" by (auto simp: find_Some_iff)
    with assms have l1: "length (route_path sr) \<noteq> 1" by blast
    show ?thesis
    proof (cases "length (route_path sr) > 0")
      case False
      with Cons rq Some show ?thesis by simp
    next
      case True
      with Cons.prems rq Some obtain sn rest where
        "nodes (route_path sr ! 0) = Some sn" "spawnBuses nodes routes now requests = Inr rest"
        "nb = newBus ident rid sr now sn # rest"
        by (auto split: option.splits sum.splits)
      moreover have "1 < length (route_path sr)" using True l1 by linarith
      then have "segmentOk (newBus ident rid sr now sn)"
        by (simp add: newBus_def segmentOk_def)
      ultimately show ?thesis using Cons.IH[of rest] by simp
    qed
  qed
qed

lemma stepBus_segmentOk:
  assumes ok: "segmentOk b" and step: "stepBus lw nodes edges time b = Inr (b', pushed)"
  shows "segmentOk b'"
proof (cases "state b = WAITING \<or> state b = WAITING_FINAL")
  case True
  then show ?thesis
  proof
    assume w: "state b = WAITING"
    from step ok w show ?thesis unfolding stepBus_WAITING[OF w]
      by (auto simp: segmentOk_def split: if_splits)
  next
    assume w: "state b = WAITING_FINAL"
    from step ok w show ?thesis unfolding stepBus_WAITING_FINAL[OF w]
      by (auto simp: segmentOk_def split: if_splits)
  qed
next
  case False
  then have m: "state b \<noteq> WAITING" "state b \<noteq> WAITING_FINAL" by simp_all
  show ?thesis
  proof (cases "int (currentSegment b) \<ge> int (length (path b)) - 1")
    case True
    with step show ?thesis unfolding stepBus_moving[OF m] by (auto simp: segmentOk_def)
  next
    case nsafe: False
    show ?thesis
    proof (cases "find (\<lambda>e. edge_from e = path b ! currentSegment b
                            \<and> edge_to e = path b ! Suc (currentSegment b)) edges")
      case None
      with nsafe step show ?thesis unfolding stepBus_moving[OF m] by (auto simp: segmentOk_def)
    next
      case (Some edge)
      with nsafe step obtain f t where b': "b' = moveBus lw time b f t edge"
        unfolding stepBus_moving[OF m] by (auto split: option.splits)
      from nsafe m show ?thesis unfolding b' segmentOk_def
        by (auto simp: moveBus_state moveBus_fields split: if_splits)
    qed
  qed
qed

lemma steppedBus_segmentOk: "segmentOk b \<Longrightarrow> segmentOk (steppedBus lw nodes edges time b)"
proof (cases "stepBus lw nodes edges time b")
  case (Inl e)
  assume "segmentOk b"
  with Inl show ?thesis by (simp add: steppedBus_def)
next
  case (Inr r)
  assume ok: "segmentOk b"
  obtain b' pushed where r: "r = (b', pushed)" by (cases r)
  from stepBus_segmentOk[OF ok Inr[unfolded r]] Inr r show ?thesis by (simp add: steppedBus_def)
qed

lemma handle_segmentOk:
  assumes "\<forall>b \<in> set (busesRef st). segmentOk b"
    and "handleMultiBusAnimation lw nodes edges ra time st = Inr (st', stats)"
  shows "\<forall>b \<in> set (busesRef st'). segmentOk b"
  using assms(1) unfolding handle_remaining[OF assms(2)]
  by (auto simp: steppedBus_segmentOk)

lemma handle_no_finished:
  assumes "handleMultiBusAnimation lw nodes edges ra time st = Inr (st', stats)"
  shows "\<forall>b \<in> set (busesRef st'). state b \<noteq> FINISHED"
  unfolding handle_remaining[OF assms] by simp

lemma run_segmentOk:
  assumes "\<forall>r \<in> set routes. length (route_path r) \<noteq> 1"
  shows "\<forall>b \<in> set (busesRef st). segmentOk b \<Longrightarrow>
         runEvents lw nodes edges routes ra events (st, sent) = Inr (st', sent') \<Longrightarrow>
         \<forall>b \<in> set (busesRef st'). segmentOk b"
proof (induction events arbitrary: st sent)
  case Nil
  then show ?case by simp
next
  case (Cons ev events)
  show ?case
  proof (cases ev)
    case (Frame time)
    show ?thesis
    proof (cases "busesRef st = []")
      case True
      with Cons.prems(2) Frame have
        "runEvents lw nodes edges routes ra events (st, sent) = Inr (st', sent')" by simp
      from Cons.IH[OF Cons.prems(1) this] show ?thesis .
    next
      case False
      with Cons.prems(2) Frame obtain st1 stats where
        h: "handleMultiBusAnimation lw nodes edges ra time st = Inr (st1, stats)"
        and r: "runEvents lw nodes edges routes ra events (st1, sent @ [stats]) = Inr (st', sent')"
        by (cases "handleMultiBusAnimation lw nodes edges ra time st") auto
      from Cons.IH[OF handle_segmentOk[OF Cons.prems(1) h] r] show ?thesis .
    qed
  next
    case (Spawn now requests)
    with Cons.prems(2) obtain nb where
      s: "spawnBuses nodes routes now requests = Inr nb"
      and r: "runEvents lw nodes edges routes ra events (st\<lparr>busesRef := busesRef st @ nb\<rparr>, sent)
              = Inr (st', sent')"
      by (cases "spawnBuses nodes routes now requests") auto
    from spawnBuses_segmentOk[OF assms s] Cons.prems(1)
    have "\<forall>b \<in> set (busesRef (st\<lparr>busesRef := busesRef st @ nb\<rparr>)). segmentOk b" by auto
    from Cons.IH[OF this r] show ?thesis .
  qed
qed

lemma run_conservation:
  "runEvents lw nodes edges routes ra events (st, sent) = Inr (st', sent') \<Longrightarrow>
     countOf (completedCountsRef st) r \<le> countOf (completedCountsRef st') r
   \<and> countOf (completedCountsRef st') r + activeCount r (busesRef st')
       = countOf (completedCountsRef st) r + activeCount r (busesRef st)
         + spawnedCount nodes routes r events"
proof (induction events arbitrary: st sent)
  case Nil
  then show ?case by simp
next
  case (Cons ev events)
  show ?case
  proof (cases ev)
    case (Frame time)
    show ?thesis
    proof (cases "busesRef st = []")
      case True
      with Cons Frame show ?thesis by simp
    next
      case False
      with Cons.prems Frame obtain st1 stats where
        h: "handleMultiBusAnimation lw nodes edges ra time st = Inr (st1, stats)"
        and r: "runEvents lw nodes edges routes ra events (st1, sent @ [stats]) = Inr (st', sent')"
        by (cases "handleMultiBusAnimation lw nodes edges ra time st") auto
      from Cons.IH[OF r] handle_conservation[OF h, of r] handle_monotone[OF h, of r] Frame
      show ?thesis by simp
    qed
  next
    case (Spawn now requests)
    with Cons.prems obtain nb where
      s: "spawnBuses nodes routes now requests = Inr nb"
      and r: "runEvents lw nodes edges routes ra events (st\<lparr>busesRef := busesRef st @ nb\<rparr>, sent)
              = Inr (st', sent')"
      by (cases "spawnBuses nodes routes now requests") auto
    from spawnBuses_MOVING[OF s] have "\<forall>b \<in> set nb. state b \<noteq> FINISHED" by auto
    then have "activeCount r nb = length (filter (\<lambda>b. routeId b = r) nb)"
      by (rule activeCount_nonfinished)
    with Cons.IH[OF r] s Spawn show ?thesis by (simp add: activeCount_append)
  qed
qed

lemma handle_solo:
  assumes "state bus \<noteq> FINISHED" and "stepBus lw nodes edges time bus = Inr (bus', pushed)"
  shows "\<exists>stats. handleMultiBusAnimation lw nodes edges ra time
                  \<lparr>busesRef = [bus], completedCountsRef = cc\<rparr>
               = Inr (\<lparr>busesRef = (if state bus' = FINISHED then [] else [bus']),
                       completedCountsRef = fold bumpCount pushed cc\<rparr>, stats)"
  using assms by (simp add: handleMultiBusAnimation_def Let_def)


lemma stepBus_first_leg:
  assumes "servedABC nodes edges a b c" "path bus = [a, b, c]" "state bus = MOVING"
    "currentSegment bus = 0"
  shows "\<exists>bus'. stepBus lw nodes edges time bus = Inr (bus', [])
       \<and> path bus' = path bus \<and> routeId bus' = routeId bus \<and> currentSegment bus' = 0
       \<and> (if time - lastStateChangeTime bus \<ge> 2000
           then state bus' = WAITING \<and> lastStateChangeTime bus' = time
           else state bus' = MOVING \<and> lastStateChangeTime bus' = lastStateChangeTime bus)"
proof -
  from assms(1) obtain e n1 n2 where
    "find (\<lambda>e. edge_from e = a \<and> edge_to e = b) edges = Some e" "nodes a = Some n1" "nodes b = Some n2"
    by (auto simp: servedABC_def)
  with assms(2-4) have "stepBus lw nodes edges time bus = Inr (moveBus lw time bus n1 n2 e, [])"
    by (simp add: stepBus_moving)
  with assms(2-4) show ?thesis
    by (simp add: moveBus_fields moveBus_state moveBus_last TRAVEL_DURATION_def)
qed

lemma stepBus_second_leg:
  assumes "servedABC nodes edges a b c" "path bus = [a, b, c]" "state bus = MOVING"
    "currentSegment bus = 1"
  shows "\<exists>bus'. stepBus lw nodes edges time bus = Inr (bus', [])
       \<and> path bus' = path bus \<and> routeId bus' = routeId bus \<and> currentSegment bus' = 1
       \<and> (if time - lastStateChangeTime bus \<ge> 2000
           then state bus' = WAITING_FINAL \<and> lastStateChangeTime bus' = time
           else state bus' = MOVING \<and> lastStateChangeTime bus' = lastStateChangeTime bus)"
proof -
  from assms(1) obtain e n1 n2 where
    "find (\<lambda>e. edge_from e = b \<and> edge_to e = c) edges = Some e" "nodes b = Some n1" "nodes c = Some n2"
    by (auto simp: servedABC_def)
  with assms(2-4) have "stepBus lw nodes edges time bus = Inr (moveBus lw time bus n1 n2 e, [])"
    by (simp add: stepBus_moving)
  with assms(2-4) show ?thesis
    by (simp add: moveBus_fields moveBus_state moveBus_last TRAVEL_DURATION_def)
qed

lemma bus_step:
  assumes net: "servedABC nodes edges a b c" and p: "path bus = [a, b, c]"
    and inv: "busOnTime t0 T bus" and t: "time \<le> T'" and TT: "T \<le> T'"
  shows "\<exists>bus' pushed. stepBus lw nodes edges time bus = Inr (bus', pushed)
       \<and> path bus' = path bus \<and> routeId bus' = routeId bus
       \<and> ((state bus' \<noteq> FINISHED \<and> pushed = [] \<and> busOnTime t0 T' bus'
            \<and> (busPhase bus' = busPhase bus \<or> busPhase bus' = Suc (busPhase bus)))
           \<or> (state bus' = FINISHED \<and> pushed = [routeId bus] \<and> busPhase bus = 3
               \<and> t0 + 7000 < T'))
       \<and> (T + 3000 \<le> time \<and> t0 \<le> T \<longrightarrow> busPhase bus' = Suc (busPhase bus))"
proof (cases "state bus")
  case MOVING
  from inv MOVING consider
      (first) "currentSegment bus = 0" "lastStateChangeTime bus = t0"
    | (second) "currentSegment bus = 1" "t0 + 3000 < lastStateChangeTime bus"
        "lastStateChangeTime bus \<le> T"
    by (auto simp: busOnTime_def)
  then show ?thesis
  proof cases
    case first
    from stepBus_first_leg[OF net p MOVING first(1), of lw time] obtain bus' where
      s: "stepBus lw nodes edges time bus = Inr (bus', [])"
      and f: "path bus' = path bus" "routeId bus' = routeId bus" "currentSegment bus' = 0"
      and c: "if time - lastStateChangeTime bus \<ge> 2000
           then state bus' = WAITING \<and> lastStateChangeTime bus' = time
           else state bus' = MOVING \<and> lastStateChangeTime bus' = lastStateChangeTime bus"
      by blast
    show ?thesis
    proof (cases "time - lastStateChangeTime bus \<ge> 2000")
      case True
      with c have "state bus' = WAITING" "lastStateChangeTime bus' = time" by simp_all
      with s f first True t MOVING show ?thesis
        by (simp add: busOnTime_def busPhase_def)
    next
      case False
      with c have "state bus' = MOVING" "lastStateChangeTime bus' = lastStateChangeTime bus"
        by simp_all
      with s f first False t MOVING show ?thesis
        by (simp add: busOnTime_def busPhase_def)
    qed
  next
    case second
    from stepBus_second_leg[OF net p MOVING second(1), of lw time] obtain bus' where
      s: "stepBus lw nodes edges time bus = Inr (bus', [])"
      and f: "path bus' = path bus" "routeId bus' = routeId bus" "currentSegment bus' = 1"
      and c: "if time - lastStateChangeTime bus \<ge> 2000
           then state bus' = WAITING_FINAL \<and> lastStateChangeTime bus' = time
           else state bus' = MOVING \<and> lastStateChangeTime bus' = lastStateChangeTime bus"
      by blast
    show ?thesis
    proof (cases "time - lastStateChangeTime bus \<ge> 2000")
      case True
      with c have "state bus' = WAITING_FINAL" "lastStateChangeTime bus' = time" by simp_all
      with s f second True t MOVING show ?thesis
        by (simp add: busOnTime_def busPhase_def)
    next
      case False
      with c have "state bus' = MOVING" "lastStateChangeTime bus' = lastStateChangeTime bus"
        by simp_all
      with s f second False t TT MOVING show ?thesis
        by (simp add: busOnTime_def busPhase_def)
    qed
  qed
next
  case WAITING
  with inv have i: "currentSegment bus = 0" "t0 + 2000 \<le> lastStateChangeTime bus"
    "lastStateChangeTime bus \<le> T" by (auto simp: busOnTime_def)
  show ?thesis
  proof (cases "time - lastStateChangeTime bus > 1000")
    case True
    with i t WAITING show ?thesis
      by (simp add: stepBus_WAITING STOP_DURATION_def busOnTime_def busPhase_def)
  next
    case False
    with i t TT WAITING show ?thesis
      by (simp add: stepBus_WAITING STOP_DURATION_def busOnTime_def busPhase_def)
  qed
next
  case WAITING_FINAL
  with inv have i: "currentSegment bus = 1" "t0 + 5000 < lastStateChangeTime bus"
    "lastStateChangeTime bus \<le> T" by (auto simp: busOnTime_def)
  show ?thesis
  proof (cases "time - lastStateChangeTime bus > 2000")
    case True
    with i t WAITING_FINAL show ?thesis
      by (simp add: stepBus_WAITING_FINAL DESTINATION_WAIT_def busOnTime_def busPhase_def)
  next
    case False
    with i t TT WAITING_FINAL show ?thesis
      by (simp add: stepBus_WAITING_FINAL DESTINATION_WAIT_def busOnTime_def busPhase_def)
  qed
next
  case FINISHED
  with inv show ?thesis by (simp add: busOnTime_def)
qed

lemma busOnTime_not_finished: "busOnTime t0 T bus \<Longrightarrow> state bus \<noteq> FINISHED"
  by (auto simp: busOnTime_def)

lemma busPhase_FINISHED: "state bus = FINISHED \<Longrightarrow> busPhase bus = 4"
  by (simp add: busPhase_def)

lemma frame_solo:
  assumes net: "servedABC nodes edges a b c"
    and inv: "soloInv [a, b, c] rid cc t0 T st" and t: "time \<le> T'" and TT: "T \<le> T'"
  shows "\<exists>st' sent'. runEvents lw nodes edges routes ra [Frame time] (st, sent) = Inr (st', sent')
       \<and> soloInv [a, b, c] rid cc t0 T' st'
       \<and> (vehiclePhase st' = vehiclePhase st \<or> vehiclePhase st' = Suc (vehiclePhase st))
       \<and> (T + 3000 \<le> time \<and> t0 \<le> T \<longrightarrow> vehiclePhase st' = min 4 (Suc (vehiclePhase st)))"
proof (cases "busesRef st")
  case Nil
  with inv TT show ?thesis by (simp add: soloInv_def vehiclePhase_def)
next
  case (Cons bus rest)
  with inv have rest: "rest = []" and p: "path bus = [a, b, c]" and r: "routeId bus = rid"
    and c: "completedCountsRef st = cc" and ot: "busOnTime t0 T bus"
    by (simp_all add: soloInv_def)
  have st: "st = \<lparr>busesRef = [bus], completedCountsRef = cc\<rparr>"
    using Cons rest c by (cases st) simp
  from bus_step[OF net p ot t TT, of lw] obtain bus' pushed where
    s: "stepBus lw nodes edges time bus = Inr (bus', pushed)"
    and f: "path bus' = path bus" "routeId bus' = routeId bus"
    and o: "(state bus' \<noteq> FINISHED \<and> pushed = [] \<and> busOnTime t0 T' bus'
            \<and> (busPhase bus' = busPhase bus \<or> busPhase bus' = Suc (busPhase bus)))
           \<or> (state bus' = FINISHED \<and> pushed = [routeId bus] \<and> busPhase bus = 3
               \<and> t0 + 7000 < T')"
    and adv: "T + 3000 \<le> time \<and> t0 \<le> T \<longrightarrow> busPhase bus' = Suc (busPhase bus)"
    by blast
  from handle_solo[OF busOnTime_not_finished[OF ot] s, of ra cc] obtain stats where
    h: "handleMultiBusAnimation lw nodes edges ra time st
          = Inr (\<lparr>busesRef = (if state bus' = FINISHED then [] else [bus']),
                  completedCountsRef = fold bumpCount pushed cc\<rparr>, stats)"
    unfolding st by blast
  let ?st' = "\<lparr>busesRef = (if state bus' = FINISHED then [] else [bus']),
               completedCountsRef = fold bumpCount pushed cc\<rparr>"
  have run: "runEvents lw nodes edges routes ra [Frame time] (st, sent) = Inr (?st', sent @ [stats])"
    using h Cons by simp
  have ph: "vehiclePhase st = busPhase bus" using Cons by (simp add: vehiclePhase_def)
  from o show ?thesis
  proof
    assume a: "state bus' \<noteq> FINISHED \<and> pushed = [] \<and> busOnTime t0 T' bus'
            \<and> (busPhase bus' = busPhase bus \<or> busPhase bus' = Suc (busPhase bus))"
    then have ph': "vehiclePhase ?st' = busPhase bus'" by (simp add: vehiclePhase_def)
    have le: "busPhase bus' \<le> 3" using a by (auto simp: busPhase_def split: BusStatus.splits)
    have "soloInv [a, b, c] rid cc t0 T' ?st'"
      using a f p r by (simp add: soloInv_def)
    moreover have "vehiclePhase ?st' = vehiclePhase st \<or> vehiclePhase ?st' = Suc (vehiclePhase st)"
      using a ph ph' by simp
    moreover have "T + 3000 \<le> time \<and> t0 \<le> T \<longrightarrow> vehiclePhase ?st' = min 4 (Suc (vehiclePhase st))"
      using adv ph ph' le by auto
    ultimately show ?thesis using run by blast
  next
    assume a: "state bus' = FINISHED \<and> pushed = [routeId bus] \<and> busPhase bus = 3
               \<and> t0 + 7000 < T'"
    then have ph': "vehiclePhase ?st' = 4" by (simp add: vehiclePhase_def)
    have "soloInv [a, b, c] rid cc t0 T' ?st'"
      using a r by (simp add: soloInv_def)
    moreover have "vehiclePhase ?st' = Suc (vehiclePhase st)" using a ph ph' by simp
    moreover have "vehiclePhase ?st' = min 4 (Suc (vehiclePhase st))" using a ph ph' by simp
    ultimately show ?thesis using run by blast
  qed
qed

lemma runEvents_Cons:
  "runEvents lw nodes edges routes ra (ev # evs) s =
     (case runEvents lw nodes edges routes ra [ev] s of
        Inl e \<Rightarrow> Inl e
      | Inr s' \<Rightarrow> runEvents lw nodes edges routes ra evs s')"
proof -
  obtain st sent where s: "s = (st, sent)" by (cases s)
  show ?thesis
  proof (cases ev)
    case (Frame time)
    show ?thesis
    proof (cases "busesRef st = []")
      case True
      with Frame s show ?thesis by simp
    next
      case False
      with Frame s show ?thesis
        by (cases "handleMultiBusAnimation lw nodes edges ra time st") auto
    qed
  next
    case (Spawn now requests)
    with s show ?thesis by (cases "spawnBuses nodes routes now requests") auto
  qed
qed

lemma runEvents_Cons2:
  "runEvents lw nodes edges routes ra (ev # ev2 # evs) s =
     (case runEvents lw nodes edges routes ra [ev] s of
        Inl e \<Rightarrow> Inl e
      | Inr s' \<Rightarrow> runEvents lw nodes edges routes ra (ev2 # evs) s')"
  by (rule runEvents_Cons)

lemma frame_state_indep:
  "map_sum id fst (runEvents lw nodes edges routes ra [Frame time] (st, sent))
     = map_sum id fst (runEvents lw nodes edges routes' ra [Frame time] (st, sent'))"
proof (cases "busesRef st = []")
  case True
  then show ?thesis by simp
next
  case False
  then show ?thesis by (cases "handleMultiBusAnimation lw nodes edges ra time st") auto
qed

lemma soloInv_status:
  assumes "soloInv pth rid cc t0 T st"
  shows "vehicleStatus st = phases ! vehiclePhase st \<and> vehiclePhase st \<le> 4"
proof (cases "busesRef st")
  case Nil
  then show ?thesis by (simp add: vehicleStatus_def vehiclePhase_def phases_def)
next
  case (Cons bus rest)
  with assms have "busOnTime t0 T bus" by (simp add: soloInv_def)
  then show ?thesis using Cons
    by (cases "state bus")
       (auto simp: busOnTime_def vehicleStatus_def vehiclePhase_def busPhase_def phases_def)
qed

lemma vehicleTrace_nonempty: "vehicleTrace lw nodes edges ra ts st \<noteq> []"
  and vehicleTrace_hd: "hd (vehicleTrace lw nodes edges ra ts st) = vehicleStatus st"
  by (cases ts; simp)+

lemma phases_adjacent: "k < 4 \<Longrightarrow> phases ! k \<noteq> phases ! Suc k"
proof -
  assume "k < 4"
  then consider "k = 0" | "k = 1" | "k = 2" | "k = 3" by linarith
  then show ?thesis by cases (simp_all add: phases_def)
qed

lemma remdups_adj_step:
  assumes "xs \<noteq> []"
  shows "remdups_adj (x # xs) = (if x = hd xs then remdups_adj xs else x # remdups_adj xs)"
  using assms by (cases xs) auto

lemma solo_run:
  assumes net: "servedABC nodes edges a b c"
  shows "soloInv [a, b, c] rid cc t0 T st \<Longrightarrow> \<forall>t \<in> set ts. t \<le> T' \<Longrightarrow> T \<le> T' \<Longrightarrow>
     \<exists>st' sent'. runEvents lw nodes edges routes ra (map Frame ts) (st, sent) = Inr (st', sent')
       \<and> soloInv [a, b, c] rid cc t0 T' st'
       \<and> vehiclePhase st \<le> vehiclePhase st'
       \<and> remdups_adj (vehicleTrace lw nodes edges ra ts st)
           = map (\<lambda>k. phases ! k) [vehiclePhase st ..< Suc (vehiclePhase st')]"
proof (induction ts arbitrary: st sent T)
  case Nil
  from Nil.prems(1) Nil.prems(3) have "soloInv [a, b, c] rid cc t0 T' st"
    by (auto simp: soloInv_def busOnTime_def split: list.splits BusStatus.splits)
  with soloInv_status[OF Nil.prems(1)] show ?case by simp
next
  case (Cons t ts)
  from Cons.prems(2) have t: "t \<le> T'" and ts: "\<forall>t \<in> set ts. t \<le> T'" by simp_all
  from frame_solo[OF net Cons.prems(1) t Cons.prems(3), of lw routes ra sent]
  obtain st1 sent1 where
    r1: "runEvents lw nodes edges routes ra [Frame t] (st, sent) = Inr (st1, sent1)"
    and i1: "soloInv [a, b, c] rid cc t0 T' st1"
    and p1: "vehiclePhase st1 = vehiclePhase st \<or> vehiclePhase st1 = Suc (vehiclePhase st)"
    by blast
  from Cons.IH[OF i1 ts order_refl, of sent1] obtain st' sent' where
    r2: "runEvents lw nodes edges routes ra (map Frame ts) (st1, sent1) = Inr (st', sent')"
    and i2: "soloInv [a, b, c] rid cc t0 T' st'"
    and p2: "vehiclePhase st1 \<le> vehiclePhase st'"
    and tr: "remdups_adj (vehicleTrace lw nodes edges ra ts st1)
           = map (\<lambda>k. phases ! k) [vehiclePhase st1 ..< Suc (vehiclePhase st')]"
    by blast
  have run: "runEvents lw nodes edges routes ra (map Frame (t # ts)) (st, sent) = Inr (st', sent')"
    unfolding list.map by (subst runEvents_Cons) (simp only: r1 r2 sum.case)
  from frame_state_indep[of lw nodes edges "[]" ra t st "[]" routes sent] r1
  obtain sent0 where "runEvents lw nodes edges [] ra [Frame t] (st, []) = Inr (st1, sent0)"
    by (cases "runEvents lw nodes edges [] ra [Frame t] (st, [])") auto
  then have vt: "vehicleTrace lw nodes edges ra (t # ts) st
              = vehicleStatus st # vehicleTrace lw nodes edges ra ts st1"
    by (simp del: runEvents.simps)
  from soloInv_status[OF Cons.prems(1)] have s0: "vehicleStatus st = phases ! vehiclePhase st"
    and le0: "vehiclePhase st \<le> 4" by simp_all
  from soloInv_status[OF i1] have s1: "vehicleStatus st1 = phases ! vehiclePhase st1" by simp
  let ?k = "vehiclePhase st" and ?k1 = "vehiclePhase st1" and ?kf = "vehiclePhase st'"
  have tr': "remdups_adj (vehicleTrace lw nodes edges ra (t # ts) st)
           = map (\<lambda>k. phases ! k) [?k ..< Suc ?kf]"
  proof (cases "?k1 = ?k")
    case True
    then have eq: "vehicleStatus st = hd (vehicleTrace lw nodes edges ra ts st1)"
      using s0 s1 by (simp add: vehicleTrace_hd)
    have "remdups_adj (vehicleStatus st # vehicleTrace lw nodes edges ra ts st1)
        = remdups_adj (vehicleTrace lw nodes edges ra ts st1)"
      using eq by (simp add: remdups_adj_step[OF vehicleTrace_nonempty])
    also have "\<dots> = map (\<lambda>k. phases ! k) [?k ..< Suc ?kf]"
      using tr True by (simp only:)
    finally show ?thesis unfolding vt .
  next
    case False
    with p1 have k1: "?k1 = Suc ?k" by simp
    with soloInv_status[OF i1] have "?k < 4" by simp
    from phases_adjacent[OF this] have ne: "vehicleStatus st \<noteq> hd (vehicleTrace lw nodes edges ra ts st1)"
      using s0 s1 k1 by (simp add: vehicleTrace_hd)
    have "?k < Suc ?kf" using p2 k1 by simp
    then have up: "[?k ..< Suc ?kf] = ?k # [Suc ?k ..< Suc ?kf]" by (rule upt_conv_Cons)
    have "remdups_adj (vehicleStatus st # vehicleTrace lw nodes edges ra ts st1)
        = vehicleStatus st # remdups_adj (vehicleTrace lw nodes edges ra ts st1)"
      using ne by (simp add: remdups_adj_step[OF vehicleTrace_nonempty])
    also have "\<dots> = phases ! ?k # map (\<lambda>k. phases ! k) [Suc ?k ..< Suc ?kf]"
      using tr k1 s0 by (simp only:)
    also have "\<dots> = map (\<lambda>k. phases ! k) [?k ..< Suc ?kf]"
      by (simp only: up list.map)
    finally show ?thesis unfolding vt .
  qed
  from p1 p2 have "?k \<le> ?kf" by auto
  with run i2 tr' show ?case by blast
qed

lemma solo_finish:
  assumes net: "servedABC nodes edges a b c"
    and inv: "soloInv [a, b, c] rid cc t0 T st" and T: "t0 \<le> T"
  shows "\<exists>st' sent'. runEvents lw nodes edges routes ra
                       (map Frame [T + 3000, T + 6000, T + 9000, T + 12000]) (st, sent)
                     = Inr (st', sent')
       \<and> busesRef st' = [] \<and> completedCountsRef st' = bumpCount rid cc"
proof -
  from frame_solo[OF net inv order_refl, of "T + 3000" lw routes ra sent] T
  obtain s1 m1 where r1: "runEvents lw nodes edges routes ra [Frame (T + 3000)] (st, sent) = Inr (s1, m1)"
    and i1: "soloInv [a, b, c] rid cc t0 (T + 3000) s1"
    and p1: "vehiclePhase s1 = min 4 (Suc (vehiclePhase st))" by auto
  from frame_solo[OF net i1 order_refl, of "T + 6000" lw routes ra m1] T
  obtain s2 m2 where r2: "runEvents lw nodes edges routes ra [Frame (T + 6000)] (s1, m1) = Inr (s2, m2)"
    and i2: "soloInv [a, b, c] rid cc t0 (T + 6000) s2"
    and p2: "vehiclePhase s2 = min 4 (Suc (vehiclePhase s1))" by auto
  from frame_solo[OF net i2 order_refl, of "T + 9000" lw routes ra m2] T
  obtain s3 m3 where r3: "runEvents lw nodes edges routes ra [Frame (T + 9000)] (s2, m2) = Inr (s3, m3)"
    and i3: "soloInv [a, b, c] rid cc t0 (T + 9000) s3"
    and p3: "vehiclePhase s3 = min 4 (Suc (vehiclePhase s2))" by auto
  from frame_solo[OF net i3 order_refl, of "T + 12000" lw routes ra m3] T
  obtain s4 m4 where r4: "runEvents lw nodes edges routes ra [Frame (T + 12000)] (s3, m3) = Inr (s4, m4)"
    and i4: "soloInv [a, b, c] rid cc t0 (T + 12000) s4"
    and p4: "vehiclePhase s4 = min 4 (Suc (vehiclePhase s3))" by auto
  from p1 p2 p3 p4 have "vehiclePhase s4 = 4" by simp
  with i4 have "busesRef s4 = [] \<and> completedCountsRef s4 = bumpCount rid cc"
    by (cases "busesRef s4")
       (auto simp: soloInv_def vehiclePhase_def busPhase_def busOnTime_def split: BusStatus.splits if_splits)
  moreover have "runEvents lw nodes edges routes ra
                       (map Frame [T + 3000, T + 6000, T + 9000, T + 12000]) (st, sent)
                     = Inr (s4, m4)"
    by (simp only: list.map runEvents_Cons2 r1 r2 r3 r4 sum.case)
  ultimately show ?thesis by blast
qed

lemma handle_Inl:
  "stepFleet lw nodes edges time (filter (\<lambda>b. state b \<noteq> FINISHED) (busesRef st)) = Inl e
   \<Longrightarrow> handleMultiBusAnimation lw nodes edges ra time st = Inl e"
  by (simp add: handleMultiBusAnimation_def Let_def)

lemma handle_Inr:
  "stepFleet lw nodes edges time (filter (\<lambda>b. state b \<noteq> FINISHED) (busesRef st)) = Inr (stepped, pushed)
   \<Longrightarrow> \<exists>stats. handleMultiBusAnimation lw nodes edges ra time st
         = Inr (\<lparr>busesRef = filter (\<lambda>b. state b \<noteq> FINISHED) stepped,
                 completedCountsRef = fold bumpCount pushed (completedCountsRef st)\<rparr>, stats)"
  by (simp add: handleMultiBusAnimation_def Let_def)

lemma handle_stats:
  assumes "handleMultiBusAnimation lw nodes edges ra time st = Inr (st', stats)"
  shows "stats k = (if k \<in> route_id ` set ra
                   then Some \<lparr>active = length (filter (\<lambda>b. routeId b = k) (busesRef st')),
                              completed = countOf (completedCountsRef st') k\<rparr>
                   else None)"
  using handle_effect[OF assms] by blast

lemma handle_fault_isolated:
  assumes nf: "state bus \<noteq> FINISHED"
    and s: "stepBus lw nodes edges time bus = Inr (bus\<lparr>state := FINISHED\<rparr>, [routeId bus])"
  shows "(\<forall>e. handleMultiBusAnimation lw nodes edges ra time
                \<lparr>busesRef = before @ after, completedCountsRef = cc\<rparr> = Inl e
            \<longrightarrow> handleMultiBusAnimation lw nodes edges ra time
                \<lparr>busesRef = before @ bus # after, completedCountsRef = cc\<rparr> = Inl e)
       \<and> (\<forall>st0 stats0. handleMultiBusAnimation lw nodes edges ra time
                \<lparr>busesRef = before @ after, completedCountsRef = cc\<rparr> = Inr (st0, stats0)
            \<longrightarrow> (\<exists>st1 stats1. handleMultiBusAnimation lw nodes edges ra time
                    \<lparr>busesRef = before @ bus # after, completedCountsRef = cc\<rparr> = Inr (st1, stats1)
                  \<and> busesRef st1 = busesRef st0
                  \<and> (\<forall>r. countOf (completedCountsRef st1) r
                          = countOf (completedCountsRef st0) r + (if r = routeId bus then 1 else 0))
                  \<and> (\<forall>r. map_option active (stats1 r) = map_option active (stats0 r))))"
proof -
  let ?F = "filter (\<lambda>b. state b \<noteq> FINISHED)"
  let ?with = "\<lparr>busesRef = before @ bus # after, completedCountsRef = cc\<rparr>"
  let ?without = "\<lparr>busesRef = before @ after, completedCountsRef = cc\<rparr>"
  have fw: "?F (busesRef ?with) = ?F before @ bus # ?F after" using nf by simp
  have fo: "?F (busesRef ?without) = ?F before @ ?F after" by simp
  have one: "stepFleet lw nodes edges time (bus # ys) =
       (case stepFleet lw nodes edges time ys of
          Inl e \<Rightarrow> Inl e
        | Inr (ys', p') \<Rightarrow> Inr (bus\<lparr>state := FINISHED\<rparr> # ys', [routeId bus] @ p'))" for ys
    using s by simp
  show ?thesis
  proof (cases "stepFleet lw nodes edges time (?F before)")
    case (Inl e)
    then have "stepFleet lw nodes edges time (?F (busesRef ?with)) = Inl e"
      "stepFleet lw nodes edges time (?F (busesRef ?without)) = Inl e"
      unfolding fw fo by (simp_all add: stepFleet_append)
    from handle_Inl[OF this(1)] handle_Inl[OF this(2)] show ?thesis by simp
  next
    case (Inr r)
    obtain xs' p where r: "r = (xs', p)" by (cases r)
    show ?thesis
    proof (cases "stepFleet lw nodes edges time (?F after)")
      case (Inl e)
      with Inr r have "stepFleet lw nodes edges time (?F (busesRef ?with)) = Inl e"
        "stepFleet lw nodes edges time (?F (busesRef ?without)) = Inl e"
        unfolding fw fo by (simp_all add: stepFleet_append one del: stepFleet.simps)
      from handle_Inl[OF this(1)] handle_Inl[OF this(2)] show ?thesis by simp
    next
      case Inr2: (Inr r')
      obtain ys' p' where r': "r' = (ys', p')" by (cases r')
      from Inr r Inr2 r' have
        w: "stepFleet lw nodes edges time (?F (busesRef ?with))
              = Inr (xs' @ bus\<lparr>state := FINISHED\<rparr> # ys', p @ [routeId bus] @ p')"
        and o: "stepFleet lw nodes edges time (?F (busesRef ?without)) = Inr (xs' @ ys', p @ p')"
        unfolding fw fo by (simp_all add: stepFleet_append one del: stepFleet.simps)
      from handle_Inr[OF w, of ra] obtain stats1 where
        h1: "handleMultiBusAnimation lw nodes edges ra time ?with
              = Inr (\<lparr>busesRef = ?F (xs' @ bus\<lparr>state := FINISHED\<rparr> # ys'),
                      completedCountsRef = fold bumpCount (p @ [routeId bus] @ p') cc\<rparr>, stats1)"
        by auto
      from handle_Inr[OF o, of ra] obtain stats0 where
        h0: "handleMultiBusAnimation lw nodes edges ra time ?without
              = Inr (\<lparr>busesRef = ?F (xs' @ ys'),
                      completedCountsRef = fold bumpCount (p @ p') cc\<rparr>, stats0)"
        by auto
      have act: "map_option active (stats1 k) = map_option active (stats0 k)" for k
        unfolding handle_stats[OF h1] handle_stats[OF h0] using nf by simp
      have cnt: "countOf (fold bumpCount (p @ [routeId bus] @ p') cc) k
               = countOf (fold bumpCount (p @ p') cc) k + (if k = routeId bus then 1 else 0)" for k
        unfolding countOf_fold_bump by simp
      from h1 h0 act cnt show ?thesis by simp
    qed
  qed
qed

lemma runEvents_append:
  "runEvents lw nodes edges routes ra (xs @ ys) s =
     (case runEvents lw nodes edges routes ra xs s of
        Inl e \<Rightarrow> Inl e
      | Inr s' \<Rightarrow> runEvents lw nodes edges routes ra ys s')"
proof (induction xs arbitrary: s)
  case Nil
  show ?case by (cases s) simp
next
  case (Cons x xs)
  show ?case
  proof (cases "runEvents lw nodes edges routes ra [x] s")
    case (Inl e)
    then show ?thesis
      by (simp only: append_Cons runEvents_Cons[of _ _ _ _ _ x "xs @ ys"]
            runEvents_Cons[of _ _ _ _ _ x xs] sum.case)
  next
    case (Inr s1)
    with Cons.IH[of s1] show ?thesis
      by (simp only: append_Cons runEvents_Cons[of _ _ _ _ _ x "xs @ ys"]
            runEvents_Cons[of _ _ _ _ _ x xs] sum.case)
  qed
qed

lemma take_phases: "k \<le> 4 \<Longrightarrow> map (\<lambda>i. phases ! i) [0 ..< Suc k] = take (Suc k) phases"
proof -
  assume "k \<le> 4"
  then consider "k = 0" | "k = 1" | "k = 2" | "k = 3" | "k = 4" by linarith
  then show ?thesis
    by cases (simp_all add: phases_def upt_rec)
qed

lemma solo_lifecycle:
  assumes net: "servedABC nodes edges a b c"
    and bus: "path bus = [a, b, c]" "state bus = MOVING" "currentSegment bus = 0"
      "lastStateChangeTime bus = t0"
    and times: "\<forall>t \<in> set ts. t \<le> T"
  shows "\<exists>st' sent'.
       runEvents lw nodes edges routes ra (map Frame ts)
         (\<lparr>busesRef = [bus], completedCountsRef = cc\<rparr>, sent) = Inr (st', sent')
     \<and> remdups_adj (vehicleTrace lw nodes edges ra ts \<lparr>busesRef = [bus], completedCountsRef = cc\<rparr>)
         = take (Suc (vehiclePhase st')) phases
     \<and> soloInv [a, b, c] (routeId bus) cc t0 T st'
     \<and> (\<exists>more st'' sent''.
          runEvents lw nodes edges routes ra (map Frame (ts @ more))
            (\<lparr>busesRef = [bus], completedCountsRef = cc\<rparr>, sent) = Inr (st'', sent'')
          \<and> busesRef st'' = [] \<and> completedCountsRef st'' = bumpCount (routeId bus) cc
          \<and> remdups_adj (vehicleTrace lw nodes edges ra (ts @ more)
                            \<lparr>busesRef = [bus], completedCountsRef = cc\<rparr>) = phases)"
proof -
  let ?st = "\<lparr>busesRef = [bus], completedCountsRef = cc\<rparr>"
  let ?rid = "routeId bus"
  have init: "soloInv [a, b, c] ?rid cc t0 T0 ?st" for T0
    using bus by (simp add: soloInv_def busOnTime_def)
  have ph0: "vehiclePhase ?st = 0" using bus by (simp add: vehiclePhase_def busPhase_def)
  from solo_run[OF net init times order_refl, of lw routes ra sent] obtain st' sent' where
    run: "runEvents lw nodes edges routes ra (map Frame ts) (?st, sent) = Inr (st', sent')"
    and inv: "soloInv [a, b, c] ?rid cc t0 T st'"
    and tr: "remdups_adj (vehicleTrace lw nodes edges ra ts ?st)
           = map (\<lambda>k. phases ! k) [vehiclePhase ?st ..< Suc (vehiclePhase st')]"
    by blast
  from soloInv_status[OF inv] have le: "vehiclePhase st' \<le> 4" by simp
  have tr': "remdups_adj (vehicleTrace lw nodes edges ra ts ?st) = take (Suc (vehiclePhase st')) phases"
    using tr take_phases[OF le] by (simp only: ph0)
  let ?M = "max T t0"
  let ?more = "[?M + 3000, ?M + 6000, ?M + 9000, ?M + 12000]"
  have tM: "\<forall>t \<in> set ts. t \<le> ?M" using times by auto
  from solo_run[OF net init tM order_refl, of lw routes ra sent] run have invM:
    "soloInv [a, b, c] ?rid cc t0 ?M st'" by auto
  from solo_finish[OF net invM, of lw routes ra sent'] obtain st'' sent'' where
    fin: "runEvents lw nodes edges routes ra (map Frame ?more) (st', sent') = Inr (st'', sent'')"
    and empty: "busesRef st'' = []" and cc'': "completedCountsRef st'' = bumpCount ?rid cc"
    by auto
  have run2: "runEvents lw nodes edges routes ra (map Frame (ts @ ?more)) (?st, sent)
            = Inr (st'', sent'')"
    unfolding map_append runEvents_append[of _ _ _ _ _ "map Frame ts"] run using fin by simp
  have tall: "\<forall>t \<in> set (ts @ ?more). t \<le> ?M + 12000" using tM by auto
  have "?M + 12000 \<le> ?M + 12000" by simp
  from solo_run[OF net init tall this, of lw routes ra sent] run2 have
    tr2: "remdups_adj (vehicleTrace lw nodes edges ra (ts @ ?more) ?st)
           = map (\<lambda>k. phases ! k) [vehiclePhase ?st ..< Suc (vehiclePhase st'')]"
    by auto
  have "vehiclePhase st'' = 4" using empty by (simp add: vehiclePhase_def)
  with tr2 take_phases[of 4] have "remdups_adj (vehicleTrace lw nodes edges ra (ts @ ?more) ?st) = phases"
    by (simp only: ph0) (simp add: phases_def)
  with run tr' inv run2 empty cc'' show ?thesis by blast
qed

lemma bus_chart:
  assumes net: "servedABC nodes edges a b c" and p: "path bus = [a, b, c]"
    and inv: "busOnTime t0 T bus"
  shows "\<exists>bus' pushed. stepBus lw nodes edges time bus = Inr (bus', pushed)
       \<and> (if state bus' = FINISHED
          then fst (chartStep time (busPhase bus, lastStateChangeTime bus)) = 4
          else chartStep time (busPhase bus, lastStateChangeTime bus)
                 = (busPhase bus', lastStateChangeTime bus'))"
proof (cases "state bus")
  case MOVING
  from inv MOVING consider
      (first) "currentSegment bus = 0" | (second) "currentSegment bus = 1"
    by (auto simp: busOnTime_def)
  then show ?thesis
  proof cases
    case first
    from stepBus_first_leg[OF net p MOVING first, of lw time] obtain bus' where
      s: "stepBus lw nodes edges time bus = Inr (bus', [])"
      and f: "currentSegment bus' = 0"
      and c: "if time - lastStateChangeTime bus \<ge> 2000
           then state bus' = WAITING \<and> lastStateChangeTime bus' = time
           else state bus' = MOVING \<and> lastStateChangeTime bus' = lastStateChangeTime bus"
      by blast
    have ph: "busPhase bus = 0" using MOVING first by (simp add: busPhase_def)
    show ?thesis
    proof (cases "time - lastStateChangeTime bus \<ge> 2000")
      case True
      with c have "state bus' = WAITING" "lastStateChangeTime bus' = time" by simp_all
      with s True ph show ?thesis by (simp add: chartStep_def busPhase_def)
    next
      case False
      with c have "state bus' = MOVING" "lastStateChangeTime bus' = lastStateChangeTime bus"
        by simp_all
      with s f False ph show ?thesis by (simp add: chartStep_def busPhase_def)
    qed
  next
    case second
    from stepBus_second_leg[OF net p MOVING second, of lw time] obtain bus' where
      s: "stepBus lw nodes edges time bus = Inr (bus', [])"
      and f: "currentSegment bus' = 1"
      and c: "if time - lastStateChangeTime bus \<ge> 2000
           then state bus' = WAITING_FINAL \<and> lastStateChangeTime bus' = time
           else state bus' = MOVING \<and> lastStateChangeTime bus' = lastStateChangeTime bus"
      by blast
    have ph: "busPhase bus = 2" using MOVING second by (simp add: busPhase_def)
    show ?thesis
    proof (cases "time - lastStateChangeTime bus \<ge> 2000")
      case True
      with c have "state bus' = WAITING_FINAL" "lastStateChangeTime bus' = time" by simp_all
      with s True ph show ?thesis by (simp add: chartStep_def busPhase_def)
    next
      case False
      with c have "state bus' = MOVING" "lastStateChangeTime bus' = lastStateChangeTime bus"
        by simp_all
      with s f False ph show ?thesis by (simp add: chartStep_def busPhase_def)
    qed
  qed
next
  case WAITING
  with inv have i: "currentSegment bus = 0" by (auto simp: busOnTime_def)
  have ph: "busPhase bus = 1" using WAITING by (simp add: busPhase_def)
  show ?thesis
  proof (cases "time - lastStateChangeTime bus > 1000")
    case True
    with i WAITING ph show ?thesis
      by (simp add: stepBus_WAITING STOP_DURATION_def chartStep_def busPhase_def)
  next
    case False
    with i WAITING ph show ?thesis
      by (simp add: stepBus_WAITING STOP_DURATION_def chartStep_def busPhase_def)
  qed
next
  case WAITING_FINAL
  have ph: "busPhase bus = 3" using WAITING_FINAL by (simp add: busPhase_def)
  show ?thesis
  proof (cases "time - lastStateChangeTime bus > 2000")
    case True
    with WAITING_FINAL ph show ?thesis
      by (simp add: stepBus_WAITING_FINAL DESTINATION_WAIT_def chartStep_def busPhase_def)
  next
    case False
    with WAITING_FINAL ph show ?thesis
      by (simp add: stepBus_WAITING_FINAL DESTINATION_WAIT_def chartStep_def busPhase_def)
  qed
next
  case FINISHED
  with inv show ?thesis by (simp add: busOnTime_def)
qed

lemma frame_chart:
  assumes net: "servedABC nodes edges a b c"
    and inv: "soloInv [a, b, c] rid cc t0 T st" and ch: "chartOf st s"
    and run: "runEvents lw nodes edges routes ra [Frame time] (st, sent) = Inr (st1, sent1)"
  shows "chartOf st1 (chartStep time s)"
proof (cases "busesRef st")
  case Nil
  with run have "st1 = st" by simp
  moreover from ch Nil have "fst s = 4" by (simp add: chartOf_def)
  then have "chartStep time s = s" by (cases s) (simp add: chartStep_def)
  ultimately show ?thesis using ch by simp
next
  case (Cons bus rest)
  with inv have rest: "rest = []" and p: "path bus = [a, b, c]"
    and c: "completedCountsRef st = cc" and ot: "busOnTime t0 T bus"
    by (simp_all add: soloInv_def)
  have st: "st = \<lparr>busesRef = [bus], completedCountsRef = cc\<rparr>"
    using Cons rest c by (cases st) simp
  from ch Cons have s: "s = (busPhase bus, lastStateChangeTime bus)" by (simp add: chartOf_def)
  from bus_chart[OF net p ot, of lw time] obtain bus' pushed where
    sb: "stepBus lw nodes edges time bus = Inr (bus', pushed)"
    and cs: "if state bus' = FINISHED
          then fst (chartStep time (busPhase bus, lastStateChangeTime bus)) = 4
          else chartStep time (busPhase bus, lastStateChangeTime bus)
                 = (busPhase bus', lastStateChangeTime bus')"
    by blast
  from handle_solo[OF busOnTime_not_finished[OF ot] sb, of ra cc] obtain stats where
    h: "handleMultiBusAnimation lw nodes edges ra time st
          = Inr (\<lparr>busesRef = (if state bus' = FINISHED then [] else [bus']),
                  completedCountsRef = fold bumpCount pushed cc\<rparr>, stats)"
    unfolding st by blast
  from run h Cons have st1: "busesRef st1 = (if state bus' = FINISHED then [] else [bus'])"
    by auto
  show ?thesis
  proof (cases "state bus' = FINISHED")
    case True
    with cs st1 show ?thesis unfolding s by (simp add: chartOf_def)
  next
    case False
    with cs st1 show ?thesis unfolding s by (simp add: chartOf_def)
  qed
qed

lemma solo_chart:
  assumes net: "servedABC nodes edges a b c"
  shows "soloInv [a, b, c] rid cc t0 T st \<Longrightarrow> \<forall>t \<in> set ts. t \<le> T' \<Longrightarrow> T \<le> T' \<Longrightarrow>
     chartOf st s \<Longrightarrow>
     runEvents lw nodes edges routes ra (map Frame ts) (st, sent) = Inr (st', sent') \<Longrightarrow>
     chartOf st' (foldl (\<lambda>s time. chartStep time s) s ts)"
proof (induction ts arbitrary: st sent T s)
  case Nil
  then show ?case by simp
next
  case (Cons t ts)
  from Cons.prems(2) have t: "t \<le> T'" and ts: "\<forall>t \<in> set ts. t \<le> T'" by simp_all
  from frame_solo[OF net Cons.prems(1) t Cons.prems(3), of lw routes ra sent]
  obtain st1 sent1 where
    r1: "runEvents lw nodes edges routes ra [Frame t] (st, sent) = Inr (st1, sent1)"
    and i1: "soloInv [a, b, c] rid cc t0 T' st1"
    by blast
  from Cons.prems(5) have
    "runEvents lw nodes edges routes ra (Frame t # map Frame ts) (st, sent) = Inr (st', sent')"
    by (simp only: list.map)
  then have r2: "runEvents lw nodes edges routes ra (map Frame ts) (st1, sent1) = Inr (st', sent')"
    by (subst (asm) runEvents_Cons) (simp only: r1 sum.case)
  from frame_chart[OF net Cons.prems(1) Cons.prems(4) r1]
  have c1: "chartOf st1 (chartStep t s)" .
  from Cons.IH[OF i1 ts order_refl c1 r2] show ?case by simp
qed

lemma chartStep_prompt:
  assumes "chartPrompt d t0 prev s" "time - prev \<le> d"
  shows "chartPrompt d t0 time (chartStep time s)"
proof -
  obtain k since where s: "s = (k, since)" by (cases s)
  from assms(1) consider
      (p0) "k = 0" "since = t0" "prev - since < 2000"
    | (p1) "k = 1" "since \<le> t0 + 2000 + d" "prev - since \<le> 1000"
    | (p2) "k = 2" "since \<le> t0 + 3000 + 2 * d" "prev - since < 2000"
    | (p3) "k = 3" "since \<le> t0 + 5000 + 3 * d" "prev - since \<le> 2000"
    | (p4) "k = 4"
    unfolding s chartPrompt_def by auto
  then show ?thesis
  proof cases
    case p0
    with assms(2) show ?thesis unfolding s by (simp add: chartStep_def chartPrompt_def)
  next
    case p1
    with assms(2) show ?thesis unfolding s by (simp add: chartStep_def chartPrompt_def)
  next
    case p2
    with assms(2) show ?thesis unfolding s by (simp add: chartStep_def chartPrompt_def)
  next
    case p3
    with assms(2) show ?thesis unfolding s by (simp add: chartStep_def chartPrompt_def)
  next
    case p4
    then show ?thesis unfolding s by (simp add: chartStep_def chartPrompt_def)
  qed
qed

lemma chartRun_prompt:
  "framesWithin d prev ts \<Longrightarrow> chartPrompt d t0 prev s \<Longrightarrow>
   chartPrompt d t0 (last (prev # ts)) (foldl (\<lambda>s time. chartStep time s) s ts)"
proof (induction ts arbitrary: prev s)
  case Nil
  then show ?case by simp
next
  case (Cons t ts)
  from Cons.prems(1) have g: "t - prev \<le> d" and w: "framesWithin d t ts" by simp_all
  from Cons.IH[OF w chartStep_prompt[OF Cons.prems(2) g]] show ?case by simp
qed

lemma chartPrompt_phase:
  assumes "chartPrompt d t0 prev s" "0 \<le> d"
  shows "(t0 + 2000 \<le> prev \<longrightarrow> 1 \<le> fst s)
       \<and> (t0 + 3000 + d < prev \<longrightarrow> 2 \<le> fst s)
       \<and> (t0 + 5000 + 2 * d \<le> prev \<longrightarrow> 3 \<le> fst s)
       \<and> (t0 + 7000 + 3 * d < prev \<longrightarrow> fst s = 4)"
proof -
  obtain k since where s: "s = (k, since)" by (cases s)
  from assms(1) consider
      (p0) "k = 0" "since = t0" "prev - since < 2000"
    | (p1) "k = 1" "since \<le> t0 + 2000 + d" "prev - since \<le> 1000"
    | (p2) "k = 2" "since \<le> t0 + 3000 + 2 * d" "prev - since < 2000"
    | (p3) "k = 3" "since \<le> t0 + 5000 + 3 * d" "prev - since \<le> 2000"
    | (p4) "k = 4"
    unfolding s chartPrompt_def by auto
  then show ?thesis
  proof cases
    case p0
    with assms(2) show ?thesis unfolding s by simp
  next
    case p1
    with assms(2) show ?thesis unfolding s by simp
  next
    case p2
    with assms(2) show ?thesis unfolding s by simp
  next
    case p3
    with assms(2) show ?thesis unfolding s by simp
  next
    case p4
    then show ?thesis unfolding s by simp
  qed
qed

lemma chartOf_phase:
  assumes "chartOf st s" "soloInv pth rid cc t0 T st"
  shows "vehiclePhase st = fst s \<and> (\<forall>b \<in> set (busesRef st). lastStateChangeTime b = snd s)"
  using assms by (cases "busesRef st") (auto simp: chartOf_def vehiclePhase_def soloInv_def)

lemma abc_served: "servedABC abc_nodes abc_edges ''A'' ''B'' ''C''"
  by (simp add: servedABC_def abc_nodes_def abc_edges_def mkEdge_def)

lemma abc_bus_fields:
  "path abc_bus = [''A'', ''B'', ''C'']" "state abc_bus = MOVING" "currentSegment abc_bus = 0"
  "lastStateChangeTime abc_bus = 0" "routeId abc_bus = 1"
  by (simp_all add: abc_bus_def newBus_def abc_route_def)

lemma abc_spawn:
  "spawnBuses abc_nodes [abc_route] 0 [(''bus-1-0'', 1)] = Inr [abc_bus]"
  by (simp add: abc_nodes_def abc_route_def abc_bus_def)

lemmas run_eval =
  runEvents.simps handleMultiBusAnimation_def Let_def stepFleet.simps stepBus_def
  moveBus_state moveBus_last moveBus_fields
  TRAVEL_DURATION_def STOP_DURATION_def DESTINATION_WAIT_def
  spawnBuses.simps newBus_def initialState_def mkNode_def mkEdge_def
  bumpCount_def countOf_def

lemma soloInv_facts:
  assumes "soloInv pth rid cc t0 T st"
  shows "(busesRef st = [] \<longrightarrow> completedCountsRef st = bumpCount rid cc \<and> t0 + 7000 < T)
       \<and> (busesRef st \<noteq> [] \<longrightarrow> completedCountsRef st = cc)
       \<and> (vehiclePhase st = 4 \<longleftrightarrow> busesRef st = [])
       \<and> (T < t0 + 2000 \<longrightarrow> vehiclePhase st = 0)
       \<and> (T \<le> t0 + 3000 \<longrightarrow> vehiclePhase st \<le> 1)
       \<and> (T \<le> t0 + 5000 \<longrightarrow> vehiclePhase st \<le> 2)
       \<and> (T \<le> t0 + 7000 \<longrightarrow> vehiclePhase st \<le> 3)"
proof (cases "busesRef st")
  case Nil
  with assms show ?thesis by (simp add: soloInv_def vehiclePhase_def)
next
  case (Cons bus rest)
  with assms have "completedCountsRef st = cc" and ot: "busOnTime t0 T bus"
    by (simp_all add: soloInv_def)
  with Cons show ?thesis
    by (cases "state bus") (auto simp: vehiclePhase_def busPhase_def busOnTime_def)
qed

text \<open>
  C3 (amended). A vehicle on a three-stop path whose two edges and three stops exist is
  driven by animation frames at arbitrary times; it changes state only in a frame. Whatever
  the frame times: no exception is raised; the states it shows, repetitions removed, are an
  initial piece of MOVING, WAITING, MOVING, WAITING_FINAL, FINISHED, so every phase is
  entered at most once, in this order, and MOVING is never entered after WAITING_FINAL; the
  completed count of its route rises by exactly 1 in the frame that finishes it and is
  unchanged before. After any list of frames its phase and the time of its last state
  change are those of the state chart applied to the frame times in turn: a segment ends in
  the first frame at least 2000 ms after the last change, the stop dwell in the first frame
  more than 1000 ms after it, the final dwell in the first frame more than 2000 ms after
  it, and a frame that does not end the phase leaves state, segment and time of last change
  as they are.

  With the spawn at \<open>t0\<close>, the boundaries 2000, 3000, 5000, 7000 of the claim are
  therefore lower bounds: while no frame is later than \<open>t0 + 2000\<close> (exclusive), \<open>t0 + 3000\<close>,
  \<open>t0 + 5000\<close>, \<open>t0 + 7000\<close> the vehicle is at most in its first, second, third, fourth
  phase, and it is FINISHED only by a frame strictly later than \<open>t0 + 7000\<close>. When frames
  keep coming, each at most \<open>d\<close> ms after the one before (the first at most \<open>d\<close> ms after
  the spawn), every transition is at most one such gap late: the vehicle has left its first
  phase once a frame is at \<open>t0 + 2000\<close> or later, its second once a frame is later than
  \<open>t0 + 3000 + d\<close>, its third once a frame is at \<open>t0 + 5000 + 2 d\<close> or later, and it is
  FINISHED, with the completed count raised, once a frame is later than \<open>t0 + 7000 + 3 d\<close>;
  the whole sequence of states has then been shown, each once.
\<close>

theorem three_stop_vehicle_lifecycle:
  assumes "find (\<lambda>e. edge_from e = a \<and> edge_to e = b) edges \<noteq> None"
    and "find (\<lambda>e. edge_from e = b \<and> edge_to e = c) edges \<noteq> None"
    and "nodes a \<noteq> None" and "nodes b \<noteq> None" and "nodes c \<noteq> None"
    and "path bus = [a, b, c]" and "state bus = MOVING" and "currentSegment bus = 0"
    and "lastStateChangeTime bus = t0"
    and "\<forall>t \<in> set ts. t \<le> T"
  shows "\<exists>st' sent'.
       runEvents lw nodes edges routes ra (map Frame ts)
         (\<lparr>busesRef = [bus], completedCountsRef = cc\<rparr>, sent) = Inr (st', sent')
     \<and> remdups_adj (vehicleTrace lw nodes edges ra ts \<lparr>busesRef = [bus], completedCountsRef = cc\<rparr>)
         = take (Suc (vehiclePhase st')) [MOVING, WAITING, MOVING, WAITING_FINAL, FINISHED]
     \<and> (busesRef st' = [] \<longrightarrow> completedCountsRef st' = bumpCount (routeId bus) cc \<and> t0 + 7000 < T)
     \<and> (busesRef st' \<noteq> [] \<longrightarrow> completedCountsRef st' = cc)
     \<and> (vehiclePhase st' = 4 \<longleftrightarrow> busesRef st' = [])
     \<and> (T < t0 + 2000 \<longrightarrow> vehiclePhase st' = 0)
     \<and> (T \<le> t0 + 3000 \<longrightarrow> vehiclePhase st' \<le> 1)
     \<and> (T \<le> t0 + 5000 \<longrightarrow> vehiclePhase st' \<le> 2)
     \<and> (T \<le> t0 + 7000 \<longrightarrow> vehiclePhase st' \<le> 3)
     \<and> (\<exists>more st'' sent''.
          runEvents lw nodes edges routes ra (map Frame (ts @ more))
            (\<lparr>busesRef = [bus], completedCountsRef = cc\<rparr>, sent) = Inr (st'', sent'')
          \<and> busesRef st'' = [] \<and> completedCountsRef st'' = bumpCount (routeId bus) cc
          \<and> remdups_adj (vehicleTrace lw nodes edges ra (ts @ more)
                            \<lparr>busesRef = [bus], completedCountsRef = cc\<rparr>)
              = [MOVING, WAITING, MOVING, WAITING_FINAL, FINISHED])
     \<and> vehiclePhase st' = fst (chartRun t0 ts)
     \<and> (\<forall>b \<in> set (busesRef st').
          lastStateChangeTime b = snd (chartRun t0 ts)
          \<and> state b = [MOVING, WAITING, MOVING, WAITING_FINAL, FINISHED] ! fst (chartRun t0 ts)
          \<and> currentSegment b = fst (chartRun t0 ts) div 2)
     \<and> (0 \<le> d \<and> framesWithin d t0 ts \<and> ts \<noteq> [] \<longrightarrow>
          (t0 + 2000 \<le> last ts \<longrightarrow> 1 \<le> vehiclePhase st')
        \<and> (t0 + 3000 + d < last ts \<longrightarrow> 2 \<le> vehiclePhase st')
        \<and> (t0 + 5000 + 2 * d \<le> last ts \<longrightarrow> 3 \<le> vehiclePhase st')
        \<and> (t0 + 7000 + 3 * d < last ts \<longrightarrow>
             busesRef st' = [] \<and> completedCountsRef st' = bumpCount (routeId bus) cc
             \<and> remdups_adj (vehicleTrace lw nodes edges ra ts
                               \<lparr>busesRef = [bus], completedCountsRef = cc\<rparr>)
                 = [MOVING, WAITING, MOVING, WAITING_FINAL, FINISHED]))"
proof -
  let ?st = "\<lparr>busesRef = [bus], completedCountsRef = cc\<rparr>"
  from assms(1-5) have net: "servedABC nodes edges a b c" by (simp add: servedABC_def)
  from solo_lifecycle[OF net assms(6-10), of lw routes ra cc sent] obtain st' sent' where
    run: "runEvents lw nodes edges routes ra (map Frame ts) (?st, sent) = Inr (st', sent')"
    and tr: "remdups_adj (vehicleTrace lw nodes edges ra ts ?st)
         = take (Suc (vehiclePhase st')) phases"
    and inv: "soloInv [a, b, c] (routeId bus) cc t0 T st'"
    and live: "\<exists>more st'' sent''.
          runEvents lw nodes edges routes ra (map Frame (ts @ more)) (?st, sent) = Inr (st'', sent'')
          \<and> busesRef st'' = [] \<and> completedCountsRef st'' = bumpCount (routeId bus) cc
          \<and> remdups_adj (vehicleTrace lw nodes edges ra (ts @ more) ?st) = phases"
    by blast
  note facts = soloInv_facts[OF inv]
  have init: "soloInv [a, b, c] (routeId bus) cc t0 T ?st"
    using assms(6-9) by (simp add: soloInv_def busOnTime_def)
  have ch0: "chartOf ?st (0, t0)"
    using assms(7-9) by (simp add: chartOf_def busPhase_def)
  from solo_chart[OF net init assms(10) order_refl ch0 run]
  have ch: "chartOf st' (chartRun t0 ts)" by (simp add: chartRun_def)
  from chartOf_phase[OF ch inv] have ph: "vehiclePhase st' = fst (chartRun t0 ts)"
    and lst: "\<forall>b \<in> set (busesRef st'). lastStateChangeTime b = snd (chartRun t0 ts)"
    by simp_all
  have shape: "\<forall>b \<in> set (busesRef st').
          lastStateChangeTime b = snd (chartRun t0 ts)
          \<and> state b = [MOVING, WAITING, MOVING, WAITING_FINAL, FINISHED] ! fst (chartRun t0 ts)
          \<and> currentSegment b = fst (chartRun t0 ts) div 2"
  proof (cases "busesRef st'")
    case Nil
    then show ?thesis by simp
  next
    case (Cons b0 rest)
    with inv have rest: "rest = []" and ot: "busOnTime t0 T b0" by (simp_all add: soloInv_def)
    from Cons ph have k: "fst (chartRun t0 ts) = busPhase b0" by (simp add: vehiclePhase_def)
    from ot have "state b0 = [MOVING, WAITING, MOVING, WAITING_FINAL, FINISHED] ! busPhase b0
                \<and> currentSegment b0 = busPhase b0 div 2"
      by (cases "state b0") (auto simp: busOnTime_def busPhase_def)
    with lst Cons rest k show ?thesis by simp
  qed
  have prompt: "(t0 + 2000 \<le> last ts \<longrightarrow> 1 \<le> vehiclePhase st')
        \<and> (t0 + 3000 + d < last ts \<longrightarrow> 2 \<le> vehiclePhase st')
        \<and> (t0 + 5000 + 2 * d \<le> last ts \<longrightarrow> 3 \<le> vehiclePhase st')
        \<and> (t0 + 7000 + 3 * d < last ts \<longrightarrow>
             busesRef st' = [] \<and> completedCountsRef st' = bumpCount (routeId bus) cc
             \<and> remdups_adj (vehicleTrace lw nodes edges ra ts ?st)
                 = [MOVING, WAITING, MOVING, WAITING_FINAL, FINISHED])"
    if d: "0 \<le> d" and fw: "framesWithin d t0 ts" and ne: "ts \<noteq> []"
  proof -
    have "chartPrompt d t0 t0 (0, t0)" by (simp add: chartPrompt_def)
    from chartRun_prompt[OF fw this] ne
    have "chartPrompt d t0 (last ts) (chartRun t0 ts)" by (simp add: chartRun_def)
    from chartPrompt_phase[OF this d] have b:
      "t0 + 2000 \<le> last ts \<longrightarrow> 1 \<le> vehiclePhase st'"
      "t0 + 3000 + d < last ts \<longrightarrow> 2 \<le> vehiclePhase st'"
      "t0 + 5000 + 2 * d \<le> last ts \<longrightarrow> 3 \<le> vehiclePhase st'"
      "t0 + 7000 + 3 * d < last ts \<longrightarrow> vehiclePhase st' = 4"
      unfolding ph by simp_all
    have "busesRef st' = [] \<and> completedCountsRef st' = bumpCount (routeId bus) cc
             \<and> remdups_adj (vehicleTrace lw nodes edges ra ts ?st)
                 = [MOVING, WAITING, MOVING, WAITING_FINAL, FINISHED]"
      if "t0 + 7000 + 3 * d < last ts"
    proof -
      from b(4) that have p4: "vehiclePhase st' = 4" by simp
      with facts have "busesRef st' = []" by simp
      moreover with facts have "completedCountsRef st' = bumpCount (routeId bus) cc" by simp
      moreover from tr p4 have "remdups_adj (vehicleTrace lw nodes edges ra ts ?st)
                 = [MOVING, WAITING, MOVING, WAITING_FINAL, FINISHED]"
        by (simp add: phases_def)
      ultimately show ?thesis by simp
    qed
    with b(1-3) show ?thesis by blast
  qed
  from run tr facts live ph shape prompt show ?thesis
    unfolding phases_def by blast
qed

theorem three_stop_vehicle_lifecycle_witness:
  "map_sum id (\<lambda>(st, sent). (map state (busesRef st), countOf (completedCountsRef st) 1))
     (runEvents laneWidth abc_nodes abc_edges [abc_route] []
        (map Frame [1000, 2000, 3000, 4000, 5000, 6000, 7000, 8000, 9000, 10000, 11000])
        (abc_start, []))
   = Inr ([], 1)
   \<and> remdups_adj (vehicleTrace laneWidth abc_nodes abc_edges []
                    [1000, 2000, 3000, 4000, 5000, 6000, 7000, 8000, 9000, 10000, 11000] abc_start)
       = [MOVING, WAITING, MOVING, WAITING_FINAL, FINISHED]
   \<and> chartRun 0 [1000, 2000, 3000, 4000, 5000, 6000, 7000, 8000, 9000, 10000, 11000] = (4, 9000)
   \<and> framesWithin 1000 0 [1000, 2000, 3000, 4000, 5000, 6000, 7000, 8000, 9000, 10000, 11000]
   \<and> map_sum id (\<lambda>(st, sent). map (\<lambda>b. (state b, currentSegment b, lastStateChangeTime b))
                                 (busesRef st))
       (runEvents laneWidth abc_nodes abc_edges [abc_route] []
          (map Frame [1000, 2000, 3000, 4000, 5000]) (abc_start, []))
     = Inr [(MOVING, 1, 4000)]
   \<and> chartRun 0 [1000, 2000, 3000, 4000, 5000] = (2, 4000)
   \<and> map_sum id (\<lambda>(st, sent). vehiclePhase st)
       (runEvents laneWidth abc_nodes abc_edges [abc_route] []
          (map Frame [1000, 2000, 3000, 4000, 5000]) (abc_start, []))
     = Inr 2"
proof -
  let ?ts = "[1000, 2000, 3000, 4000, 5000, 6000, 7000, 8000, 9000, 10000, 11000] :: real list"
  let ?ts5 = "[1000, 2000, 3000, 4000, 5000] :: real list"
  have h: "find (\<lambda>e. edge_from e = ''A'' \<and> edge_to e = ''B'') abc_edges \<noteq> None"
    "find (\<lambda>e. edge_from e = ''B'' \<and> edge_to e = ''C'') abc_edges \<noteq> None"
    "abc_nodes ''A'' \<noteq> None" "abc_nodes ''B'' \<noteq> None" "abc_nodes ''C'' \<noteq> None"
    by (simp_all add: abc_nodes_def abc_edges_def mkEdge_def)
  have t: "\<forall>t \<in> set ?ts. t \<le> 11000" by simp
  have t5: "\<forall>t \<in> set ?ts5. t \<le> 5000" by simp
  have fw: "framesWithin 1000 0 ?ts" by simp
  have c: "chartRun 0 ?ts = (4, 9000)" by (simp add: chartRun_def chartStep_def)
  have c5: "chartRun 0 ?ts5 = (2, 4000)" by (simp add: chartRun_def chartStep_def)
  from three_stop_vehicle_lifecycle[OF h abc_bus_fields(1-4) t,
      of laneWidth "[abc_route]" "[]" Map.empty "[]" 1000]
  obtain st' sent' where
    run: "runEvents laneWidth abc_nodes abc_edges [abc_route] [] (map Frame ?ts)
            (abc_start, []) = Inr (st', sent')"
    and fin: "0 \<le> (1000::real) \<and> framesWithin 1000 0 ?ts \<and> ?ts \<noteq> [] \<longrightarrow>
        (0 + 7000 + 3 * 1000 < last ?ts \<longrightarrow>
             busesRef st' = [] \<and> completedCountsRef st' = bumpCount (routeId abc_bus) Map.empty
             \<and> remdups_adj (vehicleTrace laneWidth abc_nodes abc_edges [] ?ts abc_start)
                 = [MOVING, WAITING, MOVING, WAITING_FINAL, FINISHED])"
    unfolding abc_start_def by blast
  from fin fw have r: "busesRef st' = []"
    "completedCountsRef st' = bumpCount (routeId abc_bus) Map.empty"
    "remdups_adj (vehicleTrace laneWidth abc_nodes abc_edges [] ?ts abc_start)
                 = [MOVING, WAITING, MOVING, WAITING_FINAL, FINISHED]"
    by simp_all
  from three_stop_vehicle_lifecycle[OF h abc_bus_fields(1-4) t5,
      of laneWidth "[abc_route]" "[]" Map.empty "[]" 1000]
  obtain st5 sent5 where
    run5: "runEvents laneWidth abc_nodes abc_edges [abc_route] [] (map Frame ?ts5)
            (abc_start, []) = Inr (st5, sent5)"
    and ph5: "vehiclePhase st5 = fst (chartRun 0 ?ts5)"
    and lo5: "5000 \<le> (0::real) + 5000 \<longrightarrow> vehiclePhase st5 \<le> 2"
    unfolding abc_start_def by blast
  from run5 ph5 c5 have p5: "map_sum id (\<lambda>(st, sent). vehiclePhase st)
       (runEvents laneWidth abc_nodes abc_edges [abc_route] [] (map Frame ?ts5) (abc_start, []))
     = Inr 2"
    by simp
  have one: "map (\<lambda>b. (state b, currentSegment b, lastStateChangeTime b)) (busesRef st5)
           = [(MOVING, 1, 4000)]"
  proof -
    have "map_sum id (\<lambda>(st, sent). map (\<lambda>b. (state b, currentSegment b, lastStateChangeTime b))
                                 (busesRef st))
       (runEvents laneWidth abc_nodes abc_edges [abc_route] []
          (map Frame ?ts5) (abc_start, []))
     = Inr [(MOVING, 1, 4000)]"
      by (simp add: run_eval abc_nodes_def abc_edges_def abc_route_def abc_start_def abc_bus_def)
    with run5 show ?thesis by simp
  qed
  from run r have "map_sum id (\<lambda>(st, sent). (map state (busesRef st), countOf (completedCountsRef st) 1))
     (runEvents laneWidth abc_nodes abc_edges [abc_route] [] (map Frame ?ts) (abc_start, []))
   = Inr ([], 1)"
    by (simp add: abc_bus_fields bumpCount_def countOf_def)
  moreover from run5 one have "map_sum id (\<lambda>(st, sent). map (\<lambda>b. (state b, currentSegment b, lastStateChangeTime b))
                                 (busesRef st))
       (runEvents laneWidth abc_nodes abc_edges [abc_route] []
          (map Frame ?ts5) (abc_start, []))
     = Inr [(MOVING, 1, 4000)]" by simp
  ultimately show ?thesis using r(3) c fw c5 p5 lo5 by simp
qed

theorem three_stop_timing_counterexample:
  "map_sum id (\<lambda>(st, sent). (map state (busesRef st), countOf (completedCountsRef st) 1))
     (runEvents laneWidth abc_nodes abc_edges [abc_route] []
        [Spawn 0 [(''bus-1-0'', 1)], Frame 2000, Frame 3000, Frame 5000, Frame 7000]
        (initialState, []))
   = Inr ([WAITING_FINAL], 0)"
  by (simp add: run_eval abc_nodes_def abc_edges_def abc_route_def)

lemma servedRoute_nth:
  assumes "servedRoute nodes edges p" "Suc i < length p"
  shows "find (\<lambda>e. edge_from e = p ! i \<and> edge_to e = p ! Suc i) edges \<noteq> None"
    and "nodes (p ! i) \<noteq> None" and "nodes (p ! Suc i) \<noteq> None"
proof -
  from assms(1) have n: "\<forall>k < length p. nodes (p ! k) \<noteq> None"
    and e: "\<forall>k < length (zip p (tl p)).
              (case zip p (tl p) ! k of
                 (x, y) \<Rightarrow> find (\<lambda>e. edge_from e = x \<and> edge_to e = y) edges \<noteq> None)"
    by (simp_all add: servedRoute_def list_all_length)
  from assms(2) have i: "i < length (zip p (tl p))" by simp
  from assms(2) have z: "zip p (tl p) ! i = (p ! i, p ! Suc i)" by (simp add: nth_tl)
  from e[rule_format, OF i] show "find (\<lambda>e. edge_from e = p ! i \<and> edge_to e = p ! Suc i) edges \<noteq> None"
    unfolding z by simp
  from n assms(2) show "nodes (p ! i) \<noteq> None" "nodes (p ! Suc i) \<noteq> None" by simp_all
qed

lemma stepBus_travel:
  assumes m: "state bus = MOVING"
    and l: "int (currentSegment bus) < int (length (path bus)) - 1"
    and sv: "servedRoute nodes edges (path bus)"
  shows "\<exists>bus'. stepBus lw nodes edges time bus = Inr (bus', [])
       \<and> path bus' = path bus \<and> routeId bus' = routeId bus \<and> bus_id bus' = bus_id bus
       \<and> currentSegment bus' = currentSegment bus
       \<and> (if time - lastStateChangeTime bus \<ge> TRAVEL_DURATION
          then state bus'
                 = (if int (currentSegment bus) + 1 = int (length (path bus)) - 1
                    then WAITING_FINAL else WAITING)
               \<and> lastStateChangeTime bus' = time
          else state bus' = MOVING \<and> lastStateChangeTime bus' = lastStateChangeTime bus)"
proof -
  from l have i: "Suc (currentSegment bus) < length (path bus)" by linarith
  from servedRoute_nth[OF sv i] obtain e n1 n2 where
    f: "find (\<lambda>e. edge_from e = path bus ! currentSegment bus
                  \<and> edge_to e = path bus ! Suc (currentSegment bus)) edges = Some e"
    and n: "nodes (path bus ! currentSegment bus) = Some n1"
      "nodes (path bus ! Suc (currentSegment bus)) = Some n2"
    by auto
  from m have nw: "state bus \<noteq> WAITING" "state bus \<noteq> WAITING_FINAL" by simp_all
  from l have ns: "\<not> int (currentSegment bus) \<ge> int (length (path bus)) - 1" by simp
  have "stepBus lw nodes edges time bus = Inr (moveBus lw time bus n1 n2 e, [])"
    unfolding stepBus_moving[OF nw] using ns f n by simp
  with m show ?thesis by (simp add: moveBus_fields moveBus_state moveBus_last)
qed

lemma stepBus_total:
  assumes sv: "servedRoute nodes edges (path b)"
  shows "\<exists>b' pushed. stepBus lw nodes edges time b = Inr (b', pushed) \<and> path b' = path b"
proof (cases "state b = WAITING \<or> state b = WAITING_FINAL")
  case True
  then show ?thesis
  proof
    assume w: "state b = WAITING"
    show ?thesis unfolding stepBus_WAITING[OF w] by simp
  next
    assume w: "state b = WAITING_FINAL"
    show ?thesis unfolding stepBus_WAITING_FINAL[OF w] by simp
  qed
next
  case False
  then have nw: "state b \<noteq> WAITING" "state b \<noteq> WAITING_FINAL" by simp_all
  show ?thesis
  proof (cases "int (currentSegment b) \<ge> int (length (path b)) - 1")
    case True
    then show ?thesis unfolding stepBus_moving[OF nw] by simp
  next
    case False
    then have i: "Suc (currentSegment b) < length (path b)" by linarith
    from servedRoute_nth[OF sv i] obtain e n1 n2 where
      "find (\<lambda>e. edge_from e = path b ! currentSegment b
                  \<and> edge_to e = path b ! Suc (currentSegment b)) edges = Some e"
      "nodes (path b ! currentSegment b) = Some n1"
      "nodes (path b ! Suc (currentSegment b)) = Some n2"
      by auto
    with False show ?thesis unfolding stepBus_moving[OF nw] by (simp add: moveBus_fields)
  qed
qed

lemma stepFleet_total:
  "\<forall>b \<in> set bs. servedRoute nodes edges (path b) \<Longrightarrow>
   \<exists>bs' pushed. stepFleet lw nodes edges time bs = Inr (bs', pushed)
     \<and> (\<forall>b \<in> set bs'. servedRoute nodes edges (path b))"
proof (induction bs)
  case Nil
  then show ?case by simp
next
  case (Cons b bs)
  from Cons.prems have sb: "servedRoute nodes edges (path b)"
    and sbs: "\<forall>b \<in> set bs. servedRoute nodes edges (path b)" by simp_all
  from stepBus_total[OF sb, of lw time] obtain b' p1 where
    s1: "stepBus lw nodes edges time b = Inr (b', p1)" and p: "path b' = path b" by blast
  from Cons.IH[OF sbs] obtain bs' p2 where
    s2: "stepFleet lw nodes edges time bs = Inr (bs', p2)"
    and sv: "\<forall>b \<in> set bs'. servedRoute nodes edges (path b)" by blast
  from s1 s2 have "stepFleet lw nodes edges time (b # bs) = Inr (b' # bs', p1 @ p2)" by simp
  moreover from sb p sv have "\<forall>x \<in> set (b' # bs'). servedRoute nodes edges (path x)" by simp
  ultimately show ?case by blast
qed

lemma handle_total:
  assumes "\<forall>b \<in> set (busesRef st). servedRoute nodes edges (path b)"
  shows "\<exists>st' stats. handleMultiBusAnimation lw nodes edges ra time st = Inr (st', stats)
       \<and> (\<forall>b \<in> set (busesRef st'). servedRoute nodes edges (path b))"
proof -
  let ?ongoing = "filter (\<lambda>b. state b \<noteq> FINISHED) (busesRef st)"
  from assms have "\<forall>b \<in> set ?ongoing. servedRoute nodes edges (path b)" by simp
  from stepFleet_total[OF this, of lw time] obtain stepped pushed where
    sf: "stepFleet lw nodes edges time ?ongoing = Inr (stepped, pushed)"
    and sv: "\<forall>b \<in> set stepped. servedRoute nodes edges (path b)" by blast
  from sf obtain st' stats where
    h: "handleMultiBusAnimation lw nodes edges ra time st = Inr (st', stats)"
    and r: "busesRef st' = filter (\<lambda>b. state b \<noteq> FINISHED) stepped"
    by (simp add: handleMultiBusAnimation_def Let_def)
  from r sv have "\<forall>b \<in> set (busesRef st'). servedRoute nodes edges (path b)" by simp
  with h show ?thesis by blast
qed

lemma spawnBuses_total:
  assumes "\<forall>r \<in> set routes. servedRoute nodes edges (route_path r)"
  shows "\<exists>nb. spawnBuses nodes routes now requests = Inr nb
       \<and> (\<forall>b \<in> set nb. servedRoute nodes edges (path b))"
proof (induction requests)
  case Nil
  show ?case by simp
next
  case (Cons rq requests)
  obtain ident rid where rq: "rq = (ident, rid)" by (cases rq)
  from Cons.IH obtain rest where
    ih: "spawnBuses nodes routes now requests = Inr rest"
    and sv: "\<forall>b \<in> set rest. servedRoute nodes edges (path b)" by blast
  show ?case
  proof (cases "find (\<lambda>r. route_ident r = rid) routes")
    case None
    with ih sv rq show ?thesis by simp
  next
    case (Some sr)
    then have "sr \<in> set routes" by (auto simp: find_Some_iff)
    with assms have s: "servedRoute nodes edges (route_path sr)" by blast
    show ?thesis
    proof (cases "length (route_path sr) > 0")
      case False
      with ih sv rq Some show ?thesis by simp
    next
      case True
      from s have "\<forall>k < length (route_path sr). nodes (route_path sr ! k) \<noteq> None"
        by (simp add: servedRoute_def list_all_length)
      with True obtain sn where sn: "nodes (route_path sr ! 0) = Some sn" by auto
      from ih sn True Some rq have
        "spawnBuses nodes routes now (rq # requests) = Inr (newBus ident rid sr now sn # rest)"
        by simp
      moreover from s sv have
        "\<forall>b \<in> set (newBus ident rid sr now sn # rest). servedRoute nodes edges (path b)"
        by (simp add: newBus_def)
      ultimately show ?thesis by blast
    qed
  qed
qed

lemma run_total:
  assumes "\<forall>r \<in> set routes. servedRoute nodes edges (route_path r)"
  shows "\<forall>b \<in> set (busesRef st). servedRoute nodes edges (path b) \<Longrightarrow>
     \<exists>st' sent'. runEvents lw nodes edges routes ra events (st, sent) = Inr (st', sent')
       \<and> (\<forall>b \<in> set (busesRef st'). servedRoute nodes edges (path b))"
proof (induction events arbitrary: st sent)
  case Nil
  then show ?case by simp
next
  case (Cons ev events)
  show ?case
  proof (cases ev)
    case (Frame time)
    show ?thesis
    proof (cases "busesRef st = []")
      case True
      from Cons.IH[OF Cons.prems, of sent] True Frame show ?thesis by simp
    next
      case False
      from handle_total[OF Cons.prems, of lw ra time] obtain st1 stats where
        h: "handleMultiBusAnimation lw nodes edges ra time st = Inr (st1, stats)"
        and sv: "\<forall>b \<in> set (busesRef st1). servedRoute nodes edges (path b)" by blast
      from Cons.IH[OF sv, of "sent @ [stats]"] h False Frame show ?thesis by simp
    qed
  next
    case (Spawn now requests)
    from spawnBuses_total[OF assms, of now requests] obtain nb where
      s: "spawnBuses nodes routes now requests = Inr nb"
      and sv: "\<forall>b \<in> set nb. servedRoute nodes edges (path b)" by blast
    from Cons.prems sv have
      "\<forall>b \<in> set (busesRef (st\<lparr>busesRef := busesRef st @ nb\<rparr>)). servedRoute nodes edges (path b)"
      by auto
    from Cons.IH[OF this, of sent] s Spawn show ?thesis by simp
  qed
qed

lemma run_no_finished:
  "\<forall>b \<in> set (busesRef st). state b \<noteq> FINISHED \<Longrightarrow>
   runEvents lw nodes edges routes ra events (st, sent) = Inr (st', sent') \<Longrightarrow>
   \<forall>b \<in> set (busesRef st'). state b \<noteq> FINISHED"
proof (induction events arbitrary: st sent)
  case Nil
  then show ?case by simp
next
  case (Cons ev events)
  show ?case
  proof (cases ev)
    case (Frame time)
    show ?thesis
    proof (cases "busesRef st = []")
      case True
      with Cons.prems(2) Frame have
        "runEvents lw nodes edges routes ra events (st, sent) = Inr (st', sent')" by simp
      from Cons.IH[OF Cons.prems(1) this] show ?thesis .
    next
      case False
      with Cons.prems(2) Frame obtain st1 stats where
        h: "handleMultiBusAnimation lw nodes edges ra time st = Inr (st1, stats)"
        and r: "runEvents lw nodes edges routes ra events (st1, sent @ [stats]) = Inr (st', sent')"
        by (cases "handleMultiBusAnimation lw nodes edges ra time st") auto
      from Cons.IH[OF handle_no_finished[OF h] r] show ?thesis .
    qed
  next
    case (Spawn now requests)
    with Cons.prems(2) obtain nb where
      s: "spawnBuses nodes routes now requests = Inr nb"
      and r: "runEvents lw nodes edges routes ra events (st\<lparr>busesRef := busesRef st @ nb\<rparr>, sent)
              = Inr (st', sent')"
      by (cases "spawnBuses nodes routes now requests") auto
    from spawnBuses_MOVING[OF s] Cons.prems(1)
    have "\<forall>b \<in> set (busesRef (st\<lparr>busesRef := busesRef st @ nb\<rparr>)). state b \<noteq> FINISHED" by auto
    from Cons.IH[OF this r] show ?thesis .
  qed
qed

lemma ROUTES_served: "\<forall>r \<in> set ROUTES. servedRoute NODES EDGES (route_path r)"
  by (simp add: ROUTES_def NODES_def EDGES_def servedRoute_def mkEdge_def)

lemma ROUTES_long: "\<forall>r \<in> set ROUTES. length (route_path r) \<noteq> 1"
  by (simp add: ROUTES_def)

text \<open>
  C4. With the network of the repository, a run of spawns and frames from the empty fleet
  never throws, and every vehicle of the fleet it reaches is on a path that the network
  serves, is not FINISHED, and has a segment index below \<open>length path - 1\<close>, in MOVING and
  WAITING as in WAITING_FINAL, where it is \<open>length path - 2\<close>: the index that reaches
  \<open>length path - 1\<close> is that of the stop the vehicle arrives at. The same bounds hold on any
  network for any run that returns, when no route has exactly one stop and the fleet at the
  start satisfies them.

  A MOVING vehicle on a served path stays MOVING, with its time of last change kept, until
  a frame comes at least the travel time after that change; in that frame it arrives: when
  the stop it arrives at is the last of its path, the one with index \<open>length path - 1\<close>, it
  goes to WAITING_FINAL, otherwise to WAITING, its segment index unchanged and the time of
  last change set to the frame time. On its last segment a MOVING vehicle never goes to
  WAITING. A WAITING vehicle stays as it is until a frame comes more than the stop dwell
  after its last change, and then goes to MOVING on the next segment. A vehicle in
  WAITING_FINAL stays exactly as it is until a frame comes more than the final dwell after
  its last change, and then becomes FINISHED and pushes its route id once; it never goes
  back to MOVING or WAITING, and a frame keeps no FINISHED vehicle in the fleet.
\<close>

theorem segment_index_invariant:
  "(\<exists>st' sent'. runEvents lw NODES EDGES ROUTES ra events (initialState, sent) = Inr (st', sent')
      \<and> (\<forall>b \<in> set (busesRef st').
            state b \<noteq> FINISHED \<and> servedRoute NODES EDGES (path b)
          \<and> int (currentSegment b) < int (length (path b)) - 1
          \<and> (state b = MOVING \<or> state b = WAITING
               \<longrightarrow> int (currentSegment b) < int (length (path b)) - 1)
          \<and> (state b = WAITING_FINAL
               \<longrightarrow> int (currentSegment b) + 1 = int (length (path b)) - 1)))
   \<and> ((\<forall>r \<in> set routes. length (route_path r) \<noteq> 1)
      \<and> (\<forall>b \<in> set (busesRef st). segmentOk b)
      \<and> runEvents lw nodes edges routes ra events (st, sent) = Inr (st1, sent1)
    \<longrightarrow> (\<forall>b \<in> set (busesRef st1).
           (state b = MOVING \<or> state b = WAITING
              \<longrightarrow> int (currentSegment b) < int (length (path b)) - 1)
         \<and> (state b = WAITING_FINAL
              \<longrightarrow> int (currentSegment b) + 1 = int (length (path b)) - 1)))
   \<and> (state bus = MOVING \<and> int (currentSegment bus) < int (length (path bus)) - 1
      \<and> servedRoute nodes edges (path bus)
    \<longrightarrow> (\<exists>bus'. stepBus lw nodes edges time bus = Inr (bus', [])
           \<and> path bus' = path bus \<and> routeId bus' = routeId bus \<and> bus_id bus' = bus_id bus
           \<and> currentSegment bus' = currentSegment bus
           \<and> (if time - lastStateChangeTime bus \<ge> TRAVEL_DURATION
              then state bus'
                     = (if int (currentSegment bus) + 1 = int (length (path bus)) - 1
                        then WAITING_FINAL else WAITING)
                   \<and> lastStateChangeTime bus' = time
              else state bus' = MOVING
                   \<and> lastStateChangeTime bus' = lastStateChangeTime bus)))
   \<and> (state bus = MOVING \<and> int (currentSegment bus) + 1 = int (length (path bus)) - 1
      \<and> stepBus lw nodes edges time bus = Inr (bus1, pushed)
    \<longrightarrow> state bus1 = MOVING \<or> state bus1 = WAITING_FINAL \<or> state bus1 = FINISHED)
   \<and> (state bus = WAITING
    \<longrightarrow> stepBus lw nodes edges time bus
          = (if time - lastStateChangeTime bus > STOP_DURATION
             then Inr (bus\<lparr>state := MOVING, currentSegment := currentSegment bus + 1,
                           lastStateChangeTime := time\<rparr>, [])
             else Inr (bus, [])))
   \<and> (state bus = WAITING_FINAL
    \<longrightarrow> stepBus lw nodes edges time bus
          = (if time - lastStateChangeTime bus > DESTINATION_WAIT
             then Inr (bus\<lparr>state := FINISHED\<rparr>, [routeId bus])
             else Inr (bus, [])))
   \<and> (handleMultiBusAnimation lw nodes edges ra time st = Inr (st2, stats)
    \<longrightarrow> (\<forall>b \<in> set (busesRef st2). state b \<noteq> FINISHED))"
proof -
  have r0: "\<exists>st' sent'. runEvents lw NODES EDGES ROUTES ra events (initialState, sent) = Inr (st', sent')
      \<and> (\<forall>b \<in> set (busesRef st').
            state b \<noteq> FINISHED \<and> servedRoute NODES EDGES (path b)
          \<and> int (currentSegment b) < int (length (path b)) - 1
          \<and> (state b = MOVING \<or> state b = WAITING
               \<longrightarrow> int (currentSegment b) < int (length (path b)) - 1)
          \<and> (state b = WAITING_FINAL
               \<longrightarrow> int (currentSegment b) + 1 = int (length (path b)) - 1))"
  proof -
    have i: "\<forall>b \<in> set (busesRef initialState). servedRoute NODES EDGES (path b)"
      "\<forall>b \<in> set (busesRef initialState). segmentOk b"
      "\<forall>b \<in> set (busesRef initialState). state b \<noteq> FINISHED"
      by (simp_all add: initialState_def)
    from run_total[OF ROUTES_served i(1), of lw ra events sent] obtain st' sent' where
      run: "runEvents lw NODES EDGES ROUTES ra events (initialState, sent) = Inr (st', sent')"
      and sv: "\<forall>b \<in> set (busesRef st'). servedRoute NODES EDGES (path b)" by blast
    from run_segmentOk[OF ROUTES_long i(2) run] have ok: "\<forall>b \<in> set (busesRef st'). segmentOk b" .
    from run_no_finished[OF i(3) run] have nf: "\<forall>b \<in> set (busesRef st'). state b \<noteq> FINISHED" .
    from sv ok nf have "\<forall>b \<in> set (busesRef st').
            state b \<noteq> FINISHED \<and> servedRoute NODES EDGES (path b)
          \<and> int (currentSegment b) < int (length (path b)) - 1
          \<and> (state b = MOVING \<or> state b = WAITING
               \<longrightarrow> int (currentSegment b) < int (length (path b)) - 1)
          \<and> (state b = WAITING_FINAL
               \<longrightarrow> int (currentSegment b) + 1 = int (length (path b)) - 1)"
    proof (intro ballI)
      fix b assume b: "b \<in> set (busesRef st')"
      with sv ok nf have s: "servedRoute NODES EDGES (path b)" and o: "segmentOk b"
        and n: "state b \<noteq> FINISHED" by simp_all
      from o n have "int (currentSegment b) < int (length (path b)) - 1"
        by (cases "state b") (simp_all add: segmentOk_def)
      with s o n show "state b \<noteq> FINISHED \<and> servedRoute NODES EDGES (path b)
          \<and> int (currentSegment b) < int (length (path b)) - 1
          \<and> (state b = MOVING \<or> state b = WAITING
               \<longrightarrow> int (currentSegment b) < int (length (path b)) - 1)
          \<and> (state b = WAITING_FINAL
               \<longrightarrow> int (currentSegment b) + 1 = int (length (path b)) - 1)"
        by (simp add: segmentOk_def)
    qed
    with run show ?thesis by blast
  qed
  have a: "\<forall>b \<in> set (busesRef st1).
           (state b = MOVING \<or> state b = WAITING
              \<longrightarrow> int (currentSegment b) < int (length (path b)) - 1)
         \<and> (state b = WAITING_FINAL
              \<longrightarrow> int (currentSegment b) + 1 = int (length (path b)) - 1)"
    if "\<forall>r \<in> set routes. length (route_path r) \<noteq> 1" "\<forall>b \<in> set (busesRef st). segmentOk b"
      "runEvents lw nodes edges routes ra events (st, sent) = Inr (st1, sent1)"
    using run_segmentOk[OF that] by (auto simp: segmentOk_def)
  have b: "state bus1 = MOVING \<or> state bus1 = WAITING_FINAL \<or> state bus1 = FINISHED"
    if m: "state bus = MOVING" and l: "int (currentSegment bus) + 1 = int (length (path bus)) - 1"
      and s: "stepBus lw nodes edges time bus = Inr (bus1, pushed)"
  proof -
    from m have nw: "state bus \<noteq> WAITING" "state bus \<noteq> WAITING_FINAL" by simp_all
    show ?thesis
    proof (cases "find (\<lambda>e. edge_from e = path bus ! currentSegment bus
                            \<and> edge_to e = path bus ! Suc (currentSegment bus)) edges")
      case None
      with s l show ?thesis unfolding stepBus_moving[OF nw] by (auto split: if_splits)
    next
      case (Some edge)
      with s l obtain f t where "bus1 = moveBus lw time bus f t edge"
        unfolding stepBus_moving[OF nw] by (auto split: if_splits option.splits)
      with m l show ?thesis by (simp add: moveBus_state)
    qed
  qed
  have c: "\<exists>bus'. stepBus lw nodes edges time bus = Inr (bus', [])
           \<and> path bus' = path bus \<and> routeId bus' = routeId bus \<and> bus_id bus' = bus_id bus
           \<and> currentSegment bus' = currentSegment bus
           \<and> (if time - lastStateChangeTime bus \<ge> TRAVEL_DURATION
              then state bus'
                     = (if int (currentSegment bus) + 1 = int (length (path bus)) - 1
                        then WAITING_FINAL else WAITING)
                   \<and> lastStateChangeTime bus' = time
              else state bus' = MOVING
                   \<and> lastStateChangeTime bus' = lastStateChangeTime bus)"
    if "state bus = MOVING" "int (currentSegment bus) < int (length (path bus)) - 1"
      "servedRoute nodes edges (path bus)"
    using stepBus_travel[OF that] .
  have d: "stepBus lw nodes edges time bus
          = (if time - lastStateChangeTime bus > STOP_DURATION
             then Inr (bus\<lparr>state := MOVING, currentSegment := currentSegment bus + 1,
                           lastStateChangeTime := time\<rparr>, [])
             else Inr (bus, []))"
    if "state bus = WAITING"
    using that by (rule stepBus_WAITING)
  have e: "stepBus lw nodes edges time bus
          = (if time - lastStateChangeTime bus > DESTINATION_WAIT
             then Inr (bus\<lparr>state := FINISHED\<rparr>, [routeId bus])
             else Inr (bus, []))"
    if "state bus = WAITING_FINAL"
    using that by (rule stepBus_WAITING_FINAL)
  have f: "\<forall>b \<in> set (busesRef st2). state b \<noteq> FINISHED"
    if "handleMultiBusAnimation lw nodes edges ra time st = Inr (st2, stats)"
    using that by (rule handle_no_finished)
  from r0 a b c d e f show ?thesis by blast
qed

theorem segment_index_invariant_witness:
  "map_sum id (\<lambda>(st, sent). map (\<lambda>b. (state b, currentSegment b, length (path b))) (busesRef st))
     (runEvents laneWidth NODES EDGES ROUTES []
        [Spawn 0 [(''bus-1-0'', 1)], Frame 2000, Frame 3001, Frame 5001, Frame 6002,
         Frame 8002, Frame 9003, Frame 11003] (initialState, []))
   = Inr [(WAITING_FINAL, 3, 5)]
   \<and> map_sum id (\<lambda>(st, sent). list_all (\<lambda>b. servedRoute NODES EDGES (path b)) (busesRef st))
       (runEvents laneWidth NODES EDGES ROUTES []
          [Spawn 0 [(''bus-1-0'', 1)], Frame 2000, Frame 3001, Frame 5001, Frame 6002,
           Frame 8002, Frame 9003, Frame 11003] (initialState, []))
     = Inr True
   \<and> map_sum id (\<lambda>(b, pushed). (state b, currentSegment b, lastStateChangeTime b, pushed))
       (stepBus laneWidth NODES EDGES 11003 last_leg_bus)
     = Inr (WAITING_FINAL, 3, 11003, [])
   \<and> map_sum id (\<lambda>(b, pushed). (state b, currentSegment b, lastStateChangeTime b, pushed))
       (stepBus laneWidth NODES EDGES 11002 last_leg_bus)
     = Inr (MOVING, 3, 9003, [])
   \<and> stepBus laneWidth NODES EDGES 1401 resting_bus
       = Inr (resting_bus\<lparr>state := MOVING, currentSegment := 1, lastStateChangeTime := 1401\<rparr>, [])
   \<and> stepBus laneWidth abc_nodes abc_edges 7001 arriving_bus = Inr (arriving_bus, [])
   \<and> stepBus laneWidth abc_nodes abc_edges 7002 arriving_bus
       = Inr (arriving_bus\<lparr>state := FINISHED\<rparr>, [1])
   \<and> map_sum id (\<lambda>(st, stats). map state (busesRef st))
       (handleMultiBusAnimation laneWidth abc_nodes abc_edges [] 7002
          \<lparr>busesRef = [arriving_bus], completedCountsRef = Map.empty\<rparr>)
     = Inr []"
proof -
  let ?evs = "[Spawn 0 [(''bus-1-0'', 1)], Frame 2000, Frame 3001, Frame 5001, Frame 6002,
               Frame 8002, Frame 9003, Frame 11003]"
  have e: "map_sum id (\<lambda>(st, sent). map (\<lambda>b. (state b, currentSegment b, length (path b))) (busesRef st))
     (runEvents laneWidth NODES EDGES ROUTES [] ?evs (initialState, []))
   = Inr [(WAITING_FINAL, 3, 5)]"
    by (simp add: run_eval NODES_def EDGES_def ROUTES_def)
  have m: "state last_leg_bus = MOVING
         \<and> int (currentSegment last_leg_bus) < int (length (path last_leg_bus)) - 1
         \<and> servedRoute NODES EDGES (path last_leg_bus)"
    by (simp add: last_leg_bus_def servedRoute_def NODES_def EDGES_def mkEdge_def)
  have ll: "int (currentSegment last_leg_bus) + 1 = int (length (path last_leg_bus)) - 1"
    by (simp add: last_leg_bus_def)
  have w: "state resting_bus = WAITING" by (simp add: resting_bus_def)
  have wf: "state arriving_bus = WAITING_FINAL" by (simp add: arriving_bus_def)
  have rl: "\<forall>r \<in> set ROUTES. length (route_path r) \<noteq> 1" by (simp add: ROUTES_def)
  have i0: "\<forall>b \<in> set (busesRef initialState). segmentOk b" by (simp add: initialState_def)
  have h: "handleMultiBusAnimation laneWidth abc_nodes abc_edges [] 7002
             \<lparr>busesRef = [arriving_bus], completedCountsRef = Map.empty\<rparr>
           = Inr (\<lparr>busesRef = [], completedCountsRef = [1 \<mapsto> 1]\<rparr>, Map.empty)"
    by (simp add: run_eval arriving_bus_def)
  from segment_index_invariant[of laneWidth "[]" ?evs "[]", THEN conjunct1]
  obtain st' sent' where
    run: "runEvents laneWidth NODES EDGES ROUTES [] ?evs (initialState, []) = Inr (st', sent')"
    and sv: "\<forall>b \<in> set (busesRef st'). servedRoute NODES EDGES (path b)"
    by blast
  from segment_index_invariant[of laneWidth "[]" ?evs "[]" ROUTES initialState NODES EDGES
      st' sent', THEN conjunct2, THEN conjunct1] rl i0 run
  have inv: "\<forall>b \<in> set (busesRef st').
           (state b = MOVING \<or> state b = WAITING
              \<longrightarrow> int (currentSegment b) < int (length (path b)) - 1)
         \<and> (state b = WAITING_FINAL
              \<longrightarrow> int (currentSegment b) + 1 = int (length (path b)) - 1)"
    by blast
  from segment_index_invariant[of laneWidth "[]" ?evs "[]" ROUTES initialState NODES EDGES
      st' sent' last_leg_bus 11003,
      THEN conjunct2, THEN conjunct2, THEN conjunct1] m
  obtain b1 where s1: "stepBus laneWidth NODES EDGES 11003 last_leg_bus = Inr (b1, [])"
    and f1: "currentSegment b1 = currentSegment last_leg_bus"
      "if 11003 - lastStateChangeTime last_leg_bus \<ge> TRAVEL_DURATION
       then state b1 = (if int (currentSegment last_leg_bus) + 1 = int (length (path last_leg_bus)) - 1
                        then WAITING_FINAL else WAITING)
            \<and> lastStateChangeTime b1 = 11003
       else state b1 = MOVING \<and> lastStateChangeTime b1 = lastStateChangeTime last_leg_bus"
    by blast
  from segment_index_invariant[of laneWidth "[]" ?evs "[]" ROUTES initialState NODES EDGES
      st' sent' last_leg_bus 11003 b1 "[]",
      THEN conjunct2, THEN conjunct2, THEN conjunct2, THEN conjunct1] m ll s1
  have last: "state b1 = MOVING \<or> state b1 = WAITING_FINAL \<or> state b1 = FINISHED"
    by blast
  from segment_index_invariant[of laneWidth "[]" ?evs "[]" ROUTES initialState NODES EDGES
      st' sent' last_leg_bus 11002,
      THEN conjunct2, THEN conjunct2, THEN conjunct1] m
  obtain b2 where s2: "stepBus laneWidth NODES EDGES 11002 last_leg_bus = Inr (b2, [])"
    and f2: "currentSegment b2 = currentSegment last_leg_bus"
      "if 11002 - lastStateChangeTime last_leg_bus \<ge> TRAVEL_DURATION
       then state b2 = (if int (currentSegment last_leg_bus) + 1 = int (length (path last_leg_bus)) - 1
                        then WAITING_FINAL else WAITING)
            \<and> lastStateChangeTime b2 = 11002
       else state b2 = MOVING \<and> lastStateChangeTime b2 = lastStateChangeTime last_leg_bus"
    by blast
  from segment_index_invariant[of laneWidth "[]" ?evs "[]" ROUTES initialState NODES EDGES
      st' sent' resting_bus 1401,
      THEN conjunct2, THEN conjunct2, THEN conjunct2, THEN conjunct2, THEN conjunct1] w
  have r3: "stepBus laneWidth NODES EDGES 1401 resting_bus
       = Inr (resting_bus\<lparr>state := MOVING, currentSegment := 1, lastStateChangeTime := 1401\<rparr>, [])"
    by (simp add: resting_bus_def STOP_DURATION_def)
  from segment_index_invariant[of laneWidth "[]" ?evs "[]" ROUTES initialState abc_nodes abc_edges
      st' sent' arriving_bus 7001,
      THEN conjunct2, THEN conjunct2, THEN conjunct2, THEN conjunct2, THEN conjunct2,
      THEN conjunct1] wf
  have r4: "stepBus laneWidth abc_nodes abc_edges 7001 arriving_bus = Inr (arriving_bus, [])"
    by (simp add: arriving_bus_def DESTINATION_WAIT_def)
  from segment_index_invariant[of laneWidth "[]" ?evs "[]" ROUTES initialState abc_nodes abc_edges
      st' sent' arriving_bus 7002,
      THEN conjunct2, THEN conjunct2, THEN conjunct2, THEN conjunct2, THEN conjunct2,
      THEN conjunct1] wf
  have r5: "stepBus laneWidth abc_nodes abc_edges 7002 arriving_bus
       = Inr (arriving_bus\<lparr>state := FINISHED\<rparr>, [1])"
    by (simp add: arriving_bus_def DESTINATION_WAIT_def)
  from segment_index_invariant[of laneWidth "[]" ?evs "[]" ROUTES
      "\<lparr>busesRef = [arriving_bus], completedCountsRef = Map.empty\<rparr>" abc_nodes abc_edges
      st' sent' arriving_bus 7002 b1 "[]"
      "\<lparr>busesRef = [], completedCountsRef = [1 \<mapsto> 1]\<rparr>" Map.empty,
      THEN conjunct2, THEN conjunct2, THEN conjunct2, THEN conjunct2, THEN conjunct2,
      THEN conjunct2] h
  have gone: "\<forall>b \<in> set (busesRef \<lparr>busesRef = [], completedCountsRef = [1 \<mapsto> (1::nat)]\<rparr>).
                 state b \<noteq> FINISHED"
    by blast
  from s1 f1 have r1: "map_sum id (\<lambda>(b, pushed). (state b, currentSegment b, lastStateChangeTime b, pushed))
       (stepBus laneWidth NODES EDGES 11003 last_leg_bus) = Inr (WAITING_FINAL, 3, 11003, [])"
    by (simp add: last_leg_bus_def TRAVEL_DURATION_def)
  from s2 f2 have r2: "map_sum id (\<lambda>(b, pushed). (state b, currentSegment b, lastStateChangeTime b, pushed))
       (stepBus laneWidth NODES EDGES 11002 last_leg_bus) = Inr (MOVING, 3, 9003, [])"
    by (simp add: last_leg_bus_def TRAVEL_DURATION_def)
  from run sv have r6: "map_sum id (\<lambda>(st, sent). list_all (\<lambda>b. servedRoute NODES EDGES (path b)) (busesRef st))
       (runEvents laneWidth NODES EDGES ROUTES [] ?evs (initialState, [])) = Inr True"
    by (simp add: list_all_iff)
  from h have r7: "map_sum id (\<lambda>(st, stats). map state (busesRef st))
       (handleMultiBusAnimation laneWidth abc_nodes abc_edges [] 7002
          \<lparr>busesRef = [arriving_bus], completedCountsRef = Map.empty\<rparr>) = Inr []"
    by simp
  from e r1 r2 r3 r4 r5 r6 r7 inv last gone show ?thesis by simp
qed

text \<open>
  C5. In a frame that returns, no completed counter decreases; for every route the completed
  counter plus the number of active vehicles is the same after the frame as before, so each
  increment is one vehicle leaving the active set in that very frame; no FINISHED vehicle
  stays in the fleet; the vehicles that remain are among those that were there (a finished
  vehicle does not come back); and the telemetry of a known route shows these two numbers.
  Over a whole run the same balance holds with the spawned vehicles added, so a counter never
  rises by more than the number of vehicles of its route.
\<close>

theorem completed_counts_consistent:
  "(handleMultiBusAnimation lw nodes edges ra time st = Inr (st', stats) \<longrightarrow>
       countOf (completedCountsRef st) r \<le> countOf (completedCountsRef st') r
     \<and> countOf (completedCountsRef st') r + activeCount r (busesRef st')
         = countOf (completedCountsRef st) r + activeCount r (busesRef st)
     \<and> (\<forall>b \<in> set (busesRef st'). state b \<noteq> FINISHED)
     \<and> map bus_id (busesRef st')
         = map bus_id (filter (\<lambda>b. state b \<noteq> FINISHED
                                    \<and> state (steppedBus lw nodes edges time b) \<noteq> FINISHED)
                          (busesRef st))
     \<and> (r \<in> route_id ` set ra \<longrightarrow>
          stats r = Some \<lparr>active = activeCount r (busesRef st'),
                          completed = countOf (completedCountsRef st') r\<rparr>))
   \<and> (runEvents lw nodes edges routes ra events (st, sent) = Inr (st2, sent2) \<longrightarrow>
       countOf (completedCountsRef st) r \<le> countOf (completedCountsRef st2) r
     \<and> countOf (completedCountsRef st2) r + activeCount r (busesRef st2)
         = countOf (completedCountsRef st) r + activeCount r (busesRef st)
           + spawnedCount nodes routes r events)"
proof -
  have a: "countOf (completedCountsRef st) r \<le> countOf (completedCountsRef st') r
     \<and> countOf (completedCountsRef st') r + activeCount r (busesRef st')
         = countOf (completedCountsRef st) r + activeCount r (busesRef st)
     \<and> (\<forall>b \<in> set (busesRef st'). state b \<noteq> FINISHED)
     \<and> map bus_id (busesRef st')
         = map bus_id (filter (\<lambda>b. state b \<noteq> FINISHED
                                    \<and> state (steppedBus lw nodes edges time b) \<noteq> FINISHED)
                          (busesRef st))
     \<and> (r \<in> route_id ` set ra \<longrightarrow>
          stats r = Some \<lparr>active = activeCount r (busesRef st'),
                          completed = countOf (completedCountsRef st') r\<rparr>)"
    if h: "handleMultiBusAnimation lw nodes edges ra time st = Inr (st', stats)"
  proof -
    from handle_no_finished[OF h] have nf: "\<forall>b \<in> set (busesRef st'). state b \<noteq> FINISHED" .
    then have "activeCount r (busesRef st') = length (filter (\<lambda>b. routeId b = r) (busesRef st'))"
      by (rule activeCount_nonfinished)
    with handle_stats[OF h, of r] handle_monotone[OF h, of r] handle_conservation[OF h, of r]
      handle_ids[OF h] nf
    show ?thesis by simp
  qed
  from a run_conservation[of lw nodes edges routes ra events st sent st2 sent2 r]
  show ?thesis by blast
qed

theorem completed_counts_consistent_witness:
  "handleMultiBusAnimation laneWidth abc_nodes abc_edges [] 7002
     \<lparr>busesRef = [arriving_bus], completedCountsRef = Map.empty\<rparr>
   = Inr (\<lparr>busesRef = [], completedCountsRef = [1 \<mapsto> 1]\<rparr>, Map.empty)
   \<and> countOf [1 \<mapsto> 1] 1 + activeCount 1 [] = countOf Map.empty 1 + activeCount 1 [arriving_bus]"
proof -
  have e: "handleMultiBusAnimation laneWidth abc_nodes abc_edges [] 7002
     \<lparr>busesRef = [arriving_bus], completedCountsRef = Map.empty\<rparr>
   = Inr (\<lparr>busesRef = [], completedCountsRef = [1 \<mapsto> 1]\<rparr>, Map.empty)"
    by (simp add: run_eval arriving_bus_def)
  from completed_counts_consistent[of laneWidth abc_nodes abc_edges "[]" 7002
      "\<lparr>busesRef = [arriving_bus], completedCountsRef = Map.empty\<rparr>"
      "\<lparr>busesRef = [], completedCountsRef = [1 \<mapsto> 1]\<rparr>" Map.empty 1 "[]" "[]" "[]"
      "\<lparr>busesRef = [arriving_bus], completedCountsRef = Map.empty\<rparr>" "[]"] e
  show ?thesis by simp
qed

text \<open>
  C6. A MOVING vehicle that has a next stop but no edge to it becomes FINISHED in that frame
  and pushes its route id, with no other change and no exception. In the fleet, the frame
  with this vehicle fails exactly when the frame without it fails; when it returns, the
  remaining vehicles and the active counts are those of the frame without the vehicle, and
  the completed counters differ only by the one of its route, which is one higher.
\<close>

theorem missing_edge_finishes_vehicle:
  assumes "state bus = MOVING"
    and "int (currentSegment bus) < int (length (path bus)) - 1"
    and "find (\<lambda>e. edge_from e = path bus ! currentSegment bus
                  \<and> edge_to e = path bus ! (currentSegment bus + 1)) edges = None"
  shows "stepBus lw nodes edges time bus = Inr (bus\<lparr>state := FINISHED\<rparr>, [routeId bus])
     \<and> (\<forall>e. handleMultiBusAnimation lw nodes edges ra time
                \<lparr>busesRef = before @ after, completedCountsRef = cc\<rparr> = Inl e
            \<longrightarrow> handleMultiBusAnimation lw nodes edges ra time
                \<lparr>busesRef = before @ bus # after, completedCountsRef = cc\<rparr> = Inl e)
     \<and> (\<forall>st0 stats0. handleMultiBusAnimation lw nodes edges ra time
                \<lparr>busesRef = before @ after, completedCountsRef = cc\<rparr> = Inr (st0, stats0)
            \<longrightarrow> (\<exists>st1 stats1. handleMultiBusAnimation lw nodes edges ra time
                    \<lparr>busesRef = before @ bus # after, completedCountsRef = cc\<rparr> = Inr (st1, stats1)
                  \<and> busesRef st1 = busesRef st0
                  \<and> (\<forall>r. countOf (completedCountsRef st1) r
                          = countOf (completedCountsRef st0) r + (if r = routeId bus then 1 else 0))
                  \<and> (\<forall>r. map_option active (stats1 r) = map_option active (stats0 r))))"
proof -
  from assms(1) have nw: "state bus \<noteq> WAITING" "state bus \<noteq> WAITING_FINAL"
    and nf: "state bus \<noteq> FINISHED" by simp_all
  have s: "stepBus lw nodes edges time bus = Inr (bus\<lparr>state := FINISHED\<rparr>, [routeId bus])"
    using assms(2,3) by (simp add: stepBus_moving[OF nw])
  from s handle_fault_isolated[OF nf s, of ra before after cc] show ?thesis by blast
qed

theorem missing_edge_finishes_vehicle_witness:
  "stepBus laneWidth NODES EDGES 500 lost_bus = Inr (lost_bus\<lparr>state := FINISHED\<rparr>, [7])
   \<and> map_sum id (\<lambda>(st, stats). (busesRef st, countOf (completedCountsRef st) 7))
       (handleMultiBusAnimation laneWidth NODES EDGES [] 500
          \<lparr>busesRef = [lost_bus, resting_bus], completedCountsRef = Map.empty\<rparr>)
     = Inr ([resting_bus], 1)"
proof -
  have h: "state lost_bus = MOVING"
    "int (currentSegment lost_bus) < int (length (path lost_bus)) - 1"
    "find (\<lambda>e. edge_from e = path lost_bus ! currentSegment lost_bus
              \<and> edge_to e = path lost_bus ! (currentSegment lost_bus + 1)) EDGES = None"
    by (simp_all add: lost_bus_def EDGES_def mkEdge_def)
  have e: "handleMultiBusAnimation laneWidth NODES EDGES [] 500
          \<lparr>busesRef = [] @ [resting_bus], completedCountsRef = Map.empty\<rparr>
     = Inr (\<lparr>busesRef = [resting_bus], completedCountsRef = Map.empty\<rparr>, Map.empty)"
    by (simp add: run_eval resting_bus_def)
  from missing_edge_finishes_vehicle[OF h, of laneWidth NODES 500 "[]" "[]" "[resting_bus]" Map.empty]
    e
  obtain st1 stats1 where
    "stepBus laneWidth NODES EDGES 500 lost_bus = Inr (lost_bus\<lparr>state := FINISHED\<rparr>, [routeId lost_bus])"
    "handleMultiBusAnimation laneWidth NODES EDGES [] 500
          \<lparr>busesRef = [] @ lost_bus # [resting_bus], completedCountsRef = Map.empty\<rparr> = Inr (st1, stats1)"
    "busesRef st1 = [resting_bus]"
    "countOf (completedCountsRef st1) 7 = countOf Map.empty 7 + (if 7 = routeId lost_bus then 1 else 0)"
    by force
  then show ?thesis by (simp add: lost_bus_def)
qed

text \<open>
  C7. The lane offset changes nothing but the rendered position. The view of a vehicle that
  forgets \<open>x\<close> and \<open>y\<close> keeps its id, route id, colour, path, segment index, state,
  \<open>lastStateChangeTime\<close> and rotation. For every run of spawns and frames, and for every
  single frame, the source's lane width 14 and the lane width 0 give the same result or the
  same exception, the same views of all vehicles, the same completed counters and the same
  telemetry; the positions differ by the lane offset along the normal of the heading.
\<close>

theorem lane_offset_only_moves_position:
  "map_sum id (\<lambda>(st, sent). (stateView st, sent))
       (runEvents laneWidth nodes edges routes ra events (st, sent))
     = map_sum id (\<lambda>(st, sent). (stateView st, sent))
         (runEvents 0 nodes edges routes ra events (st, sent))
   \<and> map_sum id (\<lambda>(st, stats). (stateView st, stats))
       (handleMultiBusAnimation laneWidth nodes edges ra time st)
     = map_sum id (\<lambda>(st, stats). (stateView st, stats))
         (handleMultiBusAnimation 0 nodes edges ra time st)
   \<and> stateView st = st\<lparr>busesRef := map logicalView (busesRef st)\<rparr>
   \<and> (logicalView bus1 = logicalView bus2 \<longleftrightarrow>
        bus_id bus1 = bus_id bus2 \<and> routeId bus1 = routeId bus2 \<and> color bus1 = color bus2
        \<and> path bus1 = path bus2 \<and> currentSegment bus1 = currentSegment bus2
        \<and> state bus1 = state bus2 \<and> lastStateChangeTime bus1 = lastStateChangeTime bus2
        \<and> rotation bus1 = rotation bus2)
   \<and> bus_x (moveBus laneWidth time bus fromNode toNode edge)
       = bus_x (moveBus 0 time bus fromNode toNode edge)
         + (real_of_int (jsRem (routeId bus - 1) 4) - 3 / 2) * laneWidth
           * cos (rotation (moveBus 0 time bus fromNode toNode edge) * pi / 180 + pi / 2)
   \<and> bus_y (moveBus laneWidth time bus fromNode toNode edge)
       = bus_y (moveBus 0 time bus fromNode toNode edge)
         + (real_of_int (jsRem (routeId bus - 1) 4) - 3 / 2) * laneWidth
           * sin (rotation (moveBus 0 time bus fromNode toNode edge) * pi / 180 + pi / 2)"
proof -
  have x: "bus_x (moveBus laneWidth time bus fromNode toNode edge)
       = bus_x (moveBus 0 time bus fromNode toNode edge)
         + (real_of_int (jsRem (routeId bus - 1) 4) - 3 / 2) * laneWidth
           * cos (rotation (moveBus 0 time bus fromNode toNode edge) * pi / 180 + pi / 2)"
    by (simp add: moveBus_def Let_def)
  have y: "bus_y (moveBus laneWidth time bus fromNode toNode edge)
       = bus_y (moveBus 0 time bus fromNode toNode edge)
         + (real_of_int (jsRem (routeId bus - 1) 4) - 3 / 2) * laneWidth
           * sin (rotation (moveBus 0 time bus fromNode toNode edge) * pi / 180 + pi / 2)"
    by (simp add: moveBus_def Let_def)
  from runEvents_view[OF refl, of laneWidth nodes edges routes ra events st sent 0]
    handle_view[OF refl, of laneWidth nodes edges ra time st 0]
    logicalView_eq_iff[of bus1 bus2] x y
  show ?thesis by (simp add: stateView_def)
qed

end
